theory Spec2Isabelle
  imports Complex_Main "HOL-Library.Multiset"
begin

section \<open>Numeric model\<close>

text \<open>
  The notebook computes with numpy arrays of 64-bit floats. Array entries that are read
  from the data files (descriptors, depths, thresholds) are modelled as real numbers, so
  rounding is not part of the model. A value that the program computes can be numpy's
  not-a-number: the cosine distance divides by a product of norms, and the mean divides by
  a count. Computed values therefore have the type \<open>npfloat\<close>, which adds \<open>NaN\<close> to the
  reals. An exception of Python or numpy is a value of type \<open>error\<close>.
\<close>

datatype npfloat = Num real | NaN

datatype error = ValueError | IndexError | IOError

definition ebind :: "error + 'a \<Rightarrow> ('a \<Rightarrow> error + 'b) \<Rightarrow> error + 'b" where
  "ebind m f = (case m of Inl e \<Rightarrow> Inl e | Inr x \<Rightarrow> f x)"

text \<open>A Python loop that builds a list and stops at the first exception.\<close>

fun traverse :: "('a \<Rightarrow> error + 'b) \<Rightarrow> 'a list \<Rightarrow> error + 'b list" where
  "traverse f [] = Inr []"
| "traverse f (x # xs) =
     (case f x of
        Inl e \<Rightarrow> Inl e
      | Inr y \<Rightarrow> (case traverse f xs of Inl e \<Rightarrow> Inl e | Inr ys \<Rightarrow> Inr (y # ys)))"

text \<open>Indexing \<open>xs[i]\<close> of Python and numpy: a negative index counts from the end.\<close>

definition np_get :: "'a list \<Rightarrow> int \<Rightarrow> error + 'a" where
  "np_get xs i =
     (if 0 \<le> i \<and> i < int (length xs) then Inr (xs ! nat i)
      else if - int (length xs) \<le> i \<and> i < 0 then Inr (xs ! nat (int (length xs) + i))
      else Inl IndexError)"

section \<open>Sequence Window Builder\<close>

text \<open>
  \<^verbatim>\<open>
  def getRefSeqInfo(refIdx,maxIndVal,seqLen):
      lb = max(refIdx-int(np.floor(seqLen/2.0)),0)
      ub = min(refIdx+int(np.ceil(seqLen/2.0)),maxIndVal)
      return np.arange(lb,ub)
  \<close>
  \<open>np.arange(lb,ub)\<close> is the list of the integers from \<open>lb\<close> to \<open>ub - 1\<close>, empty when
  \<open>ub \<le> lb\<close>.
\<close>

definition getRefSeqInfo :: "int \<Rightarrow> int \<Rightarrow> int \<Rightarrow> int list" where
  "getRefSeqInfo refIdx maxIndVal seqLen =
     (let lb = max (refIdx - \<lfloor>real_of_int seqLen / 2\<rfloor>) 0;
          ub = min (refIdx + \<lceil>real_of_int seqLen / 2\<rceil>) maxIndVal
      in [lb..ub - 1])"

section \<open>Depth Filter\<close>

text \<open>
  \<^verbatim>\<open>
  def filterKPs_depth(kp_d,minD,maxD):
      return np.argwhere(np.multiply(kp_d<maxD, kp_d>minD))[:,0]
  \<close>
  The product of the two boolean masks is their conjunction; \<open>argwhere\<close> lists the
  positions of the true entries in ascending order.
\<close>

definition filterKPs_depth :: "real list \<Rightarrow> real \<Rightarrow> real \<Rightarrow> nat list" where
  "filterKPs_depth kp_d minD maxD =
     filter (\<lambda>i. kp_d ! i < maxD \<and> kp_d ! i > minD) [0..<length kp_d]"

section \<open>Keypoint Projector\<close>

text \<open>
  \<^verbatim>\<open>
  def getKP2d(kpInds,resShape_,mulFac_):
      kp = np.fliplr(mulFac_*np.array(np.unravel_index(kpInds,resShape_)).transpose()).astype(int)
      return kp

  def getKpDep(kpIndFlat,depImg,resShape,mulFac):
      kp2d = getKP2d(kpIndFlat,resShape,mulFac)
      kp_dep = depImg[kp2d[:,1].flatten(), kp2d[:,0].flatten()]
      return kp_dep
  \<close>
  \<open>unravel_index\<close> raises ValueError for an index outside the grid. The scale factor is the
  pair (row factor, column factor); \<open>fliplr\<close> puts the column coordinate first, and
  \<open>astype(int)\<close> truncates towards zero.
\<close>

definition unravel_index :: "nat \<Rightarrow> nat \<times> nat \<Rightarrow> error + (nat \<times> nat)" where
  "unravel_index f resShape =
     (if f < fst resShape * snd resShape
      then Inr (f div snd resShape, f mod snd resShape)
      else Inl ValueError)"

definition astype_int :: "real \<Rightarrow> int" where
  "astype_int x = (if 0 \<le> x then \<lfloor>x\<rfloor> else \<lceil>x\<rceil>)"

definition getKP2d :: "nat list \<Rightarrow> nat \<times> nat \<Rightarrow> real \<times> real \<Rightarrow> error + (int \<times> int) list" where
  "getKP2d kpInds resShape mulFac =
     ebind (traverse (\<lambda>f. unravel_index f resShape) kpInds)
       (\<lambda>rc. Inr (map (\<lambda>(r, c). (astype_int (snd mulFac * real c),
                                 astype_int (fst mulFac * real r))) rc))"

definition getKpDep ::
  "nat list \<Rightarrow> real list list \<Rightarrow> nat \<times> nat \<Rightarrow> real \<times> real \<Rightarrow> error + real list" where
  "getKpDep kpIndFlat depImg resShape mulFac =
     ebind (getKP2d kpIndFlat resShape mulFac)
       (\<lambda>kp2d. traverse (\<lambda>(x, y). ebind (np_get depImg y) (\<lambda>row. np_get row x)) kp2d)"

section \<open>Per-channel keypoints\<close>

text \<open>
  A dense descriptor tensor is an array of shape (spatial cells, channels): a list of rows,
  one per spatial cell. \<open>np.argmax(a, axis=0)\<close> gives, for every channel, the first cell
  of maximal response, and raises ValueError when the array has no cell.
\<close>

type_synonym tensor = "real list list"

type_synonym depthmap = "real list list"

primrec first_index :: "('a \<Rightarrow> bool) \<Rightarrow> 'a list \<Rightarrow> nat" where
  "first_index P [] = 0"
| "first_index P (x # xs) = (if P x then 0 else Suc (first_index P xs))"

definition np_argmax :: "real list \<Rightarrow> nat" where
  "np_argmax xs = first_index (\<lambda>x. x = Max (set xs)) xs"

definition column :: "'a list list \<Rightarrow> nat \<Rightarrow> 'a list" where
  "column a c = map (\<lambda>row. row ! c) a"

definition argmax_axis0 :: "tensor \<Rightarrow> error + nat list" where
  "argmax_axis0 a =
     (if a = [] then Inl ValueError
      else Inr (map (\<lambda>c. np_argmax (column a c)) [0..<length (hd a)]))"

section \<open>Pairwise Descriptor Distance\<close>

text \<open>
  \<^verbatim>\<open>
  def get_cosine_corresponding_vectors(d1,d2):
      return 1 - np.sum(d1*d2,axis=1)/(np.linalg.norm(d1,axis=1)*np.linalg.norm(d2,axis=1))
  \<close>
  The two arguments have the same shape (the callers pass as many rows of as many channels
  on both sides). A division by zero yields not-a-number and no exception: the denominator
  is zero only when one of the rows is the zero vector, and then the numerator is zero too.
\<close>

definition dot :: "real list \<Rightarrow> real list \<Rightarrow> real" where
  "dot d1 d2 = sum_list (map2 (*) d1 d2)"

definition linalg_norm :: "real list \<Rightarrow> real" where
  "linalg_norm d = sqrt (sum_list (map (\<lambda>x. x * x) d))"

definition np_divide :: "real \<Rightarrow> real \<Rightarrow> npfloat" where
  "np_divide x y = (if y = 0 then NaN else Num (x / y))"

definition cosine_distance :: "real list \<Rightarrow> real list \<Rightarrow> npfloat" where
  "cosine_distance d1 d2 =
     (case np_divide (dot d1 d2) (linalg_norm d1 * linalg_norm d2) of
        NaN \<Rightarrow> NaN
      | Num q \<Rightarrow> Num (1 - q))"

definition get_cosine_corresponding_vectors :: "tensor \<Rightarrow> tensor \<Rightarrow> npfloat list" where
  "get_cosine_corresponding_vectors d1 d2 = map2 cosine_distance d1 d2"

section \<open>Reductions of numpy\<close>

text \<open>
  \<open>np.min\<close> and \<open>np.mean\<close> propagate not-a-number; \<open>np.min\<close> raises ValueError on an empty
  axis, and \<open>np.mean\<close> of an empty array is not-a-number (with a warning, no exception).
  \<open>np.argmin\<close> gives the first position of the minimum, and the position of the first
  not-a-number when there is one.
\<close>

definition np_minimum :: "npfloat \<Rightarrow> npfloat \<Rightarrow> npfloat" where
  "np_minimum a b =
     (case a of NaN \<Rightarrow> NaN
      | Num x \<Rightarrow> (case b of NaN \<Rightarrow> NaN | Num y \<Rightarrow> Num (min x y)))"

definition np_min :: "npfloat list \<Rightarrow> error + npfloat" where
  "np_min xs = (case xs of [] \<Rightarrow> Inl ValueError | x # rest \<Rightarrow> Inr (fold np_minimum rest x))"

definition np_add :: "npfloat \<Rightarrow> npfloat \<Rightarrow> npfloat" where
  "np_add a b =
     (case a of NaN \<Rightarrow> NaN
      | Num x \<Rightarrow> (case b of NaN \<Rightarrow> NaN | Num y \<Rightarrow> Num (x + y)))"

definition np_mean :: "npfloat list \<Rightarrow> npfloat" where
  "np_mean xs =
     (case fold np_add xs (Num 0) of
        NaN \<Rightarrow> NaN
      | Num s \<Rightarrow> np_divide s (real (length xs)))"

definition is_nan :: "npfloat \<Rightarrow> bool" where
  "is_nan a = (case a of NaN \<Rightarrow> True | Num x \<Rightarrow> False)"

definition np_less :: "npfloat \<Rightarrow> npfloat \<Rightarrow> bool" where
  "np_less a b = (case a of NaN \<Rightarrow> False | Num x \<Rightarrow> (case b of NaN \<Rightarrow> False | Num y \<Rightarrow> x < y))"

definition np_less_equal :: "npfloat \<Rightarrow> npfloat \<Rightarrow> bool" where
  "np_less_equal a b =
     (case a of NaN \<Rightarrow> False | Num x \<Rightarrow> (case b of NaN \<Rightarrow> False | Num y \<Rightarrow> x \<le> y))"

fun argmin_from :: "npfloat list \<Rightarrow> nat \<Rightarrow> nat \<Rightarrow> npfloat \<Rightarrow> nat" where
  "argmin_from [] i best bv = best"
| "argmin_from (x # xs) i best bv =
     (if is_nan bv then best
      else if is_nan x \<or> np_less x bv then argmin_from xs (Suc i) i x
      else argmin_from xs (Suc i) best bv)"

definition np_argmin :: "npfloat list \<Rightarrow> error + nat" where
  "np_argmin xs = (case xs of [] \<Rightarrow> Inl ValueError | x # rest \<Rightarrow> Inr (argmin_from rest 1 0 x))"

section \<open>Candidate Re-ranker\<close>

text \<open>
  \<open>matchData\<close> reads two global arrays of the notebook, the dense tensors and the depth
  maps of the reference images; the model passes them in a record. \<open>xs[inds]\<close> with an
  array of indices gathers the entries at these indices.
\<close>

record refdata =
  denseFtRefAll :: "tensor list"
  depImgRefAll :: "depthmap list"

definition take_inds :: "'a list \<Rightarrow> nat list \<Rightarrow> error + 'a list" where
  "take_inds xs inds = traverse (\<lambda>i. np_get xs (int i)) inds"

text \<open>
  The body of the loop over the frames of the window, up to the distances it writes:
  \<^verbatim>\<open>
  denseDescRef = denseFtRefAll[k1].copy()
  kp1IndFlatRef = np.argmax(denseDescRef,axis=0)
  kp1_depth = getKpDep(kp1IndFlatRef,depImgRefAll[k1],c5ShapeIn,mulFac)
  inRangeInds = filterKPs_depth(kp1_depth,0,depThresh)
  descRefSubset = denseDescRef[kp1IndFlatRef[inRangeInds]]
  descQuerySubset = denseDescQuery[kp2IndFlat[inRangeInds]]
  dists = get_cosine_corresponding_vectors(descRefSubset,descQuerySubset)
  \<close>
\<close>

definition frameDists ::
  "refdata \<Rightarrow> tensor \<Rightarrow> nat list \<Rightarrow> nat \<times> nat \<Rightarrow> real \<times> real \<Rightarrow> real \<Rightarrow> int
     \<Rightarrow> error + (nat list \<times> npfloat list)" where
  "frameDists rd denseDescQuery kp2IndFlat c5ShapeIn mulFac depThresh k1 =
     ebind (np_get (denseFtRefAll rd) k1) (\<lambda>denseDescRef.
     ebind (argmax_axis0 denseDescRef) (\<lambda>kp1IndFlatRef.
     ebind (np_get (depImgRefAll rd) k1) (\<lambda>depImg.
     ebind (getKpDep kp1IndFlatRef depImg c5ShapeIn mulFac) (\<lambda>kp1_depth.
       let inRangeInds = filterKPs_depth kp1_depth 0 depThresh in
     ebind (take_inds kp1IndFlatRef inRangeInds) (\<lambda>refCells.
     ebind (take_inds denseDescRef refCells) (\<lambda>descRefSubset.
     ebind (take_inds kp2IndFlat inRangeInds) (\<lambda>queryCells.
     ebind (take_inds denseDescQuery queryCells) (\<lambda>descQuerySubset.
       Inr (inRangeInds,
            get_cosine_corresponding_vectors descRefSubset descQuerySubset)))))))))"

text \<open>The assignment \<open>distMat[inRangeInds,lc] = dists\<close>.\<close>

definition assign_column ::
  "npfloat list list \<Rightarrow> nat list \<Rightarrow> nat \<Rightarrow> npfloat list \<Rightarrow> npfloat list list" where
  "assign_column distMat inds lc dists =
     fold (\<lambda>(c, d) m. m[c := (m ! c)[lc := d]]) (zip inds dists) distMat"

text \<open>The loop \<open>for lc,k1 in enumerate(seqRange)\<close>.\<close>

fun fill_distMat ::
  "refdata \<Rightarrow> tensor \<Rightarrow> nat list \<Rightarrow> nat \<times> nat \<Rightarrow> real \<times> real \<Rightarrow> real
     \<Rightarrow> (nat \<times> int) list \<Rightarrow> npfloat list list \<Rightarrow> error + npfloat list list" where
  "fill_distMat rd q kp2 shp mf dT [] distMat = Inr distMat"
| "fill_distMat rd q kp2 shp mf dT ((lc, k1) # rest) distMat =
     ebind (frameDists rd q kp2 shp mf dT k1) (\<lambda>(inRangeInds, dists).
       fill_distMat rd q kp2 shp mf dT rest (assign_column distMat inRangeInds lc dists))"

text \<open>
  \<open>np.min(distMat,axis=1)\<close> raises ValueError when the window has no frame (the reduced
  axis is empty).
\<close>

definition min_axis1 :: "nat \<Rightarrow> npfloat list list \<Rightarrow> error + npfloat list" where
  "min_axis1 n distMat = (if n = 0 then Inl ValueError else traverse np_min distMat)"

text \<open>
  The table of one candidate, collapsed over the window:
  \<^verbatim>\<open>
  seqRange = getRefSeqInfo(rIdx,numRefImgs_,seqLen)
  distMat = np.ones([denseDescQuery.shape[1],len(seqRange)])*100
  for lc,k1 in enumerate(seqRange): ...
  minDists = np.min(distMat,axis=1)
  \<close>
\<close>

definition candidateMinDists ::
  "refdata \<Rightarrow> tensor \<Rightarrow> nat list \<Rightarrow> nat \<times> nat \<Rightarrow> real \<times> real \<Rightarrow> int \<Rightarrow> int \<Rightarrow> real \<Rightarrow> int
     \<Rightarrow> error + npfloat list" where
  "candidateMinDists rd denseDescQuery kp2IndFlat c5ShapeIn mulFac numRefImgs' seqLen depThresh rIdx =
     (let seqRange = getRefSeqInfo rIdx numRefImgs' seqLen;
          distMat0 = replicate (length (hd denseDescQuery))
                       (replicate (length seqRange) (Num 100))
      in ebind (fill_distMat rd denseDescQuery kp2IndFlat c5ShapeIn mulFac depThresh
                  (enumerate 0 seqRange) distMat0)
           (min_axis1 (length seqRange)))"

text \<open>
  The score of one candidate:
  \<^verbatim>\<open>
  validInds1 = np.argwhere(minDists!=100).flatten()
  distVals = minDists[validInds1]
  meanDist = np.mean(distVals)
  \<close>
  Not-a-number differs from 100, so a channel whose minimum is not-a-number is kept.
\<close>

definition candidateScore ::
  "refdata \<Rightarrow> tensor \<Rightarrow> nat list \<Rightarrow> nat \<times> nat \<Rightarrow> real \<times> real \<Rightarrow> int \<Rightarrow> int \<Rightarrow> real \<Rightarrow> int
     \<Rightarrow> error + npfloat" where
  "candidateScore rd denseDescQuery kp2IndFlat c5ShapeIn mulFac numRefImgs' seqLen depThresh rIdx =
     ebind (candidateMinDists rd denseDescQuery kp2IndFlat c5ShapeIn mulFac numRefImgs'
              seqLen depThresh rIdx)
       (\<lambda>minDists.
          let validInds1 = filter (\<lambda>c. minDists ! c \<noteq> Num 100) [0..<length minDists];
              distVals = map (\<lambda>c. minDists ! c) validInds1
          in Inr (np_mean distVals))"

text \<open>
  \<^verbatim>\<open>
  def matchData(denseDescQuery,topMatchIndsList,c5ShapeIn,mulFac,numRefImgs_,numFmaps_,
                seqLen=seqL,depThresh=depT):
      scores = []
      kp2IndFlat = np.argmax(denseDescQuery,axis=0)
      for rIdx in topMatchIndsList:
          ...
          scores.append(meanDist)
      return np.array(scores)
  \<close>
  The parameter \<open>numFmaps_\<close> is not used by the body.
\<close>

definition matchData ::
  "refdata \<Rightarrow> tensor \<Rightarrow> int list \<Rightarrow> nat \<times> nat \<Rightarrow> real \<times> real \<Rightarrow> int \<Rightarrow> nat \<Rightarrow> int \<Rightarrow> real
     \<Rightarrow> error + npfloat list" where
  "matchData rd denseDescQuery topMatchIndsList c5ShapeIn mulFac numRefImgs' numFmaps' seqLen depThresh =
     ebind (argmax_axis0 denseDescQuery) (\<lambda>kp2IndFlat.
       traverse (candidateScore rd denseDescQuery kp2IndFlat c5ShapeIn mulFac numRefImgs'
                   seqLen depThresh) topMatchIndsList)"

text \<open>
  The channels that \<open>validInds1\<close> leaves out of the mean of a candidate: their collapsed
  cell still holds the sentinel.
\<close>

definition sentinel_channels ::
  "refdata \<Rightarrow> tensor \<Rightarrow> nat \<times> nat \<Rightarrow> real \<times> real \<Rightarrow> int \<Rightarrow> int \<Rightarrow> real \<Rightarrow> int
     \<Rightarrow> error + nat list" where
  "sentinel_channels rd denseDescQuery c5ShapeIn mulFac numRefImgs' seqLen depThresh rIdx =
     ebind (argmax_axis0 denseDescQuery) (\<lambda>kp2IndFlat.
     ebind (candidateMinDists rd denseDescQuery kp2IndFlat c5ShapeIn mulFac numRefImgs'
              seqLen depThresh rIdx)
       (\<lambda>minDists. Inr (filter (\<lambda>c. minDists ! c = Num 100) [0..<length minDists])))"

section \<open>Global Retrieval\<close>




section \<open>Batch Driver\<close>

text \<open>
  The global variables of the notebook that the driver reads. \<open>queryFiles\<close> stands for the
  files of the query directory, which \<open>loadC5Tensor\<close> reads by index; the default arguments
  \<open>seqL\<close> and \<open>depT\<close> of \<open>matchData\<close> are the system parameters.
\<close>

record notebook =
  refs :: refdata
  queryFiles :: "tensor list"
  topMatches :: "nat list list"
  c5Shape :: "nat \<times> nat"
  mulFac_dep2c5 :: "real \<times> real"
  numRefImgs :: nat
  numQueryImgs :: nat
  numFmaps :: nat
  seqL :: int
  depT :: real

definition loadC5Tensor :: "tensor list \<Rightarrow> nat \<Rightarrow> error + tensor" where
  "loadC5Tensor files idx = (if idx < length files then Inr (files ! idx) else Inl IOError)"

text \<open>
  \<open>a.reshape([-1,n])\<close> regroups the entries, in row-major order, into rows of \<open>n\<close>; it
  raises ValueError when the number of entries is no multiple of \<open>n\<close> or \<open>n\<close> is zero.
\<close>

definition reshape_rows :: "tensor \<Rightarrow> nat \<Rightarrow> error + tensor" where
  "reshape_rows a n =
     (if n = 0 \<or> length (concat a) mod n \<noteq> 0 then Inl ValueError
      else Inr (map (\<lambda>i. take n (drop (i * n) (concat a))) [0..<length (concat a) div n]))"

text \<open>The column \<open>a[:,q]\<close> of a two-dimensional array.\<close>

definition np_column :: "'a list list \<Rightarrow> nat \<Rightarrow> error + 'a list" where
  "np_column a q = traverse (\<lambda>row. np_get row (int q)) a"

text \<open>
  \<^verbatim>\<open>
  def processQueryIndex(qIdx):
      topMatchIndsList = topMatches[:,qIdx]
      denseFtQuery = loadC5Tensor(queryPath_kpDense,qIdx)
      denseDescQuery = denseFtQuery.reshape([-1,numFmaps])
      scores = matchData(denseDescQuery,topMatchIndsList,c5Shape,mulFac_dep2c5,numRefImgs,numFmaps)
      return scores
  \<close>
\<close>

definition processQueryIndex :: "notebook \<Rightarrow> nat \<Rightarrow> error + npfloat list" where
  "processQueryIndex nb qIdx =
     ebind (np_column (topMatches nb) qIdx) (\<lambda>topMatchIndsList.
     ebind (loadC5Tensor (queryFiles nb) qIdx) (\<lambda>denseFtQuery.
     ebind (reshape_rows denseFtQuery (numFmaps nb)) (\<lambda>denseDescQuery.
       matchData (refs nb) denseDescQuery (map int topMatchIndsList) (c5Shape nb)
         (mulFac_dep2c5 nb) (int (numRefImgs nb)) (numFmaps nb) (seqL nb) (depT nb))))"

text \<open>
  The sequential driver:
  \<^verbatim>\<open>
  finalScores = []
  for i in range(numQueryImgs):
      s = processQueryIndex(i)
      finalScores.append(s)
  \<close>
\<close>

definition finalScores_sequential :: "notebook \<Rightarrow> error + npfloat list list" where
  "finalScores_sequential nb = traverse (processQueryIndex nb) [0..<numQueryImgs nb]"

text \<open>
  The parallel driver:
  \<^verbatim>\<open>
  numT = 4
  scores = []
  for i in range(0,numQueryImgs,numT):
      pool = ThreadPool(numT)
      s = pool.map(processQueryIndex, range(i,min(i+numT,numQueryImgs)))
      pool.close()
      pool.join()
      scores.append(s)
  finalScores = np.concatenate(scores)
  \<close>
  \<open>pool.map\<close> runs every task of the batch and stores each result at the position of its
  task when the task completes; it raises the first failure, if there is one, once the
  batch is done. The order in which the tasks of a batch complete is not determined by the
  program: the model takes it as a parameter, a list of the positions of the batch in their
  order of completion. \<open>np.concatenate\<close> raises ValueError for an empty list.
\<close>

definition numT :: nat where
  "numT = 4"

definition pool_map :: "nat list \<Rightarrow> ('a \<Rightarrow> error + 'b) \<Rightarrow> 'a list \<Rightarrow> error + 'b list" where
  "pool_map completed f xs =
     (let outcomes = map f xs;
          slots = fold (\<lambda>i value. value[i := Some (outcomes ! i)]) completed
                    (replicate (length xs) None)
      in case filter isl (map (\<lambda>i. outcomes ! i) completed) of
           failure # others \<Rightarrow> Inl (projl failure)
         | [] \<Rightarrow> traverse (\<lambda>slot. case slot of Some (Inr y) \<Rightarrow> Inr y | _ \<Rightarrow> Inl ValueError) slots)"

definition batch_starts :: "nat \<Rightarrow> nat \<Rightarrow> nat list" where
  "batch_starts n step = map (\<lambda>b. b * step) [0..<(n + step - 1) div step]"

definition np_concatenate :: "'a list list \<Rightarrow> error + 'a list" where
  "np_concatenate arrays = (if arrays = [] then Inl ValueError else Inr (concat arrays))"

definition finalScores_parallel :: "(nat \<Rightarrow> nat list) \<Rightarrow> notebook \<Rightarrow> error + npfloat list list" where
  "finalScores_parallel completed nb =
     ebind (traverse (\<lambda>i. pool_map (completed i) (processQueryIndex nb)
                             [i..<min (i + numT) (numQueryImgs nb)])
              (batch_starts (numQueryImgs nb) numT))
       np_concatenate"

text \<open>
  The completion orders of a run: for every batch, a permutation of its positions.
\<close>

definition completion_orders :: "(nat \<Rightarrow> nat list) \<Rightarrow> nat \<Rightarrow> bool" where
  "completion_orders completed n \<longleftrightarrow>
     list_all (\<lambda>i. mset (completed i) = mset [0..<min (i + numT) n - i]) (batch_starts n numT)"

text \<open>
  The output:
  \<^verbatim>\<open>
  bestMatch = topMatches[np.argmin(finalScores,axis=1),np.arange(numQueryImgs)]
  np.savetxt("../out/matchesOut.txt",
             np.vstack([np.arange(len(bestMatch)),bestMatch]).transpose(),fmt='%d')
  np.savetxt("../out/matchesBaseline.txt",
             np.vstack([np.arange(len(bestMatch)),topMatches[0,:]]).transpose(),fmt='%d')
  \<close>
  \<open>np.argmin(finalScores,axis=1)\<close> raises for an empty list of scores (there is no second
  axis) and for score vectors without an entry. The two tables are lists of rows
  (query index, reference index); writing them to files is not modelled.
\<close>

definition bestMatch :: "notebook \<Rightarrow> npfloat list list \<Rightarrow> error + nat list" where
  "bestMatch nb finalScores =
     (if finalScores = [] then Inl ValueError
      else ebind (traverse np_argmin finalScores) (\<lambda>positions.
        if length positions \<noteq> numQueryImgs nb then Inl IndexError
        else traverse (\<lambda>(p, q). ebind (np_get (topMatches nb) (int p)) (\<lambda>row. np_get row (int q)))
               (zip positions [0..<numQueryImgs nb])))"

definition matchesOut :: "nat list \<Rightarrow> (nat \<times> nat) list" where
  "matchesOut best = zip [0..<length best] best"

definition matchesBaseline :: "notebook \<Rightarrow> nat list \<Rightarrow> error + (nat \<times> nat) list" where
  "matchesBaseline nb best =
     ebind (np_get (topMatches nb) 0) (\<lambda>row0.
       if length row0 = length best then Inr (zip [0..<length best] row0) else Inl ValueError)"

section \<open>The arrays of the notebook as objects of a store\<close>

text \<open>
  numpy arrays are mutable objects, and an index expression such as \<open>depImgRefAll[k1]\<close>
  is a view that shares the memory of the array it is taken from. To say which arrays a
  call can change, this section runs \<open>processQueryIndex\<close> and \<open>matchData\<close> on a store: a
  list of array objects, addressed by position. A new array (\<open>np.ones\<close>, \<open>.copy()\<close>, a
  loaded file, the result of a gather) is appended to the store; an assignment to the
  entries of an array replaces the object at its address. Temporaries that are never
  assigned to are kept as values. The computations on the values are those of the
  definitions above.
\<close>

datatype ndarray =
  Reals3 "real list list list"
| Reals2 "real list list"
| Floats2 "npfloat list list"
| Indices2 "nat list list"

type_synonym store = "ndarray list"

text \<open>The addresses of the global arrays of the notebook.\<close>

record globals =
  denseFtRefAll_at :: nat
  depImgRefAll_at :: nat
  imgDescRef_at :: nat
  imgDescQuery_at :: nat
  topMatches_at :: nat

definition sbind ::
  "(store \<Rightarrow> (error + 'a) \<times> store) \<Rightarrow> ('a \<Rightarrow> store \<Rightarrow> (error + 'b) \<times> store)
     \<Rightarrow> store \<Rightarrow> (error + 'b) \<times> store" where
  "sbind m f h = (case m h of (Inl e, h') \<Rightarrow> (Inl e, h') | (Inr x, h') \<Rightarrow> f x h')"

definition pure_step :: "error + 'a \<Rightarrow> store \<Rightarrow> (error + 'a) \<times> store" where
  "pure_step r h = (r, h)"

definition new_array :: "ndarray \<Rightarrow> store \<Rightarrow> (error + nat) \<times> store" where
  "new_array a h = (Inr (length h), h @ [a])"

definition get_array :: "nat \<Rightarrow> store \<Rightarrow> (error + ndarray) \<times> store" where
  "get_array addr h = (if addr < length h then Inr (h ! addr) else Inl ValueError, h)"

definition set_array :: "nat \<Rightarrow> ndarray \<Rightarrow> store \<Rightarrow> (error + unit) \<times> store" where
  "set_array addr a h = (if addr < length h then (Inr (), h[addr := a]) else (Inl ValueError, h))"

definition get_reals3 :: "nat \<Rightarrow> store \<Rightarrow> (error + real list list list) \<times> store" where
  "get_reals3 addr = sbind (get_array addr)
     (\<lambda>a. pure_step (case a of Reals3 x \<Rightarrow> Inr x | _ \<Rightarrow> Inl ValueError))"

definition get_reals2 :: "nat \<Rightarrow> store \<Rightarrow> (error + real list list) \<times> store" where
  "get_reals2 addr = sbind (get_array addr)
     (\<lambda>a. pure_step (case a of Reals2 x \<Rightarrow> Inr x | _ \<Rightarrow> Inl ValueError))"

definition get_floats2 :: "nat \<Rightarrow> store \<Rightarrow> (error + npfloat list list) \<times> store" where
  "get_floats2 addr = sbind (get_array addr)
     (\<lambda>a. pure_step (case a of Floats2 x \<Rightarrow> Inr x | _ \<Rightarrow> Inl ValueError))"

definition get_indices2 :: "nat \<Rightarrow> store \<Rightarrow> (error + nat list list) \<times> store" where
  "get_indices2 addr = sbind (get_array addr)
     (\<lambda>a. pure_step (case a of Indices2 x \<Rightarrow> Inr x | _ \<Rightarrow> Inl ValueError))"

text \<open>
  One frame of the window: the copy of the frame's tensor is a new object, the depth map
  is read through a view, and the distances are assigned to a column of \<open>distMat\<close>.
\<close>

definition frame_on_store ::
  "globals \<Rightarrow> nat \<Rightarrow> nat list \<Rightarrow> nat \<times> nat \<Rightarrow> real \<times> real \<Rightarrow> real \<Rightarrow> nat \<Rightarrow> nat \<times> int
     \<Rightarrow> store \<Rightarrow> (error + unit) \<times> store" where
  "frame_on_store g query_at kp2IndFlat c5ShapeIn mulFac depThresh distMat_at = (\<lambda>(lc, k1).
     sbind (get_reals3 (denseFtRefAll_at g)) (\<lambda>dense.
     sbind (pure_step (np_get dense k1)) (\<lambda>frame.
     sbind (new_array (Reals2 frame)) (\<lambda>denseDescRef_at.
     sbind (get_reals3 (depImgRefAll_at g)) (\<lambda>depths.
     sbind (get_reals2 query_at) (\<lambda>denseDescQuery.
     sbind (pure_step (frameDists \<lparr>denseFtRefAll = dense, depImgRefAll = depths\<rparr>
                         denseDescQuery kp2IndFlat c5ShapeIn mulFac depThresh k1))
       (\<lambda>(inRangeInds, dists).
     sbind (get_floats2 distMat_at) (\<lambda>distMat.
       set_array distMat_at (Floats2 (assign_column distMat inRangeInds lc dists))))))))))"

fun frames_on_store ::
  "globals \<Rightarrow> nat \<Rightarrow> nat list \<Rightarrow> nat \<times> nat \<Rightarrow> real \<times> real \<Rightarrow> real \<Rightarrow> nat \<Rightarrow> (nat \<times> int) list
     \<Rightarrow> store \<Rightarrow> (error + unit) \<times> store" where
  "frames_on_store g query_at kp2 shp mf dT distMat_at [] = pure_step (Inr ())"
| "frames_on_store g query_at kp2 shp mf dT distMat_at (frame # rest) =
     sbind (frame_on_store g query_at kp2 shp mf dT distMat_at frame)
       (\<lambda>u. frames_on_store g query_at kp2 shp mf dT distMat_at rest)"

definition candidate_on_store ::
  "globals \<Rightarrow> nat \<Rightarrow> nat list \<Rightarrow> nat \<times> nat \<Rightarrow> real \<times> real \<Rightarrow> int \<Rightarrow> int \<Rightarrow> real \<Rightarrow> int
     \<Rightarrow> store \<Rightarrow> (error + npfloat) \<times> store" where
  "candidate_on_store g query_at kp2IndFlat c5ShapeIn mulFac numRefImgs' seqLen depThresh rIdx =
     sbind (get_reals2 query_at) (\<lambda>denseDescQuery.
     sbind (new_array (Floats2 (replicate (length (hd denseDescQuery))
              (replicate (length (getRefSeqInfo rIdx numRefImgs' seqLen)) (Num 100)))))
       (\<lambda>distMat_at.
     sbind (frames_on_store g query_at kp2IndFlat c5ShapeIn mulFac depThresh distMat_at
              (enumerate 0 (getRefSeqInfo rIdx numRefImgs' seqLen))) (\<lambda>u.
     sbind (get_floats2 distMat_at) (\<lambda>distMat.
     sbind (pure_step (min_axis1 (length (getRefSeqInfo rIdx numRefImgs' seqLen)) distMat))
       (\<lambda>minDists.
         pure_step (Inr (np_mean (map (\<lambda>c. minDists ! c)
           (filter (\<lambda>c. minDists ! c \<noteq> Num 100) [0..<length minDists])))))))))"

fun candidates_on_store ::
  "(int \<Rightarrow> store \<Rightarrow> (error + npfloat) \<times> store) \<Rightarrow> int list
     \<Rightarrow> store \<Rightarrow> (error + npfloat list) \<times> store" where
  "candidates_on_store score [] = pure_step (Inr [])"
| "candidates_on_store score (rIdx # rest) =
     sbind (score rIdx) (\<lambda>meanDist.
     sbind (candidates_on_store score rest) (\<lambda>scores. pure_step (Inr (meanDist # scores))))"

definition matchData_on_store ::
  "globals \<Rightarrow> nat \<Rightarrow> int list \<Rightarrow> nat \<times> nat \<Rightarrow> real \<times> real \<Rightarrow> int \<Rightarrow> nat \<Rightarrow> int \<Rightarrow> real
     \<Rightarrow> store \<Rightarrow> (error + npfloat list) \<times> store" where
  "matchData_on_store g query_at topMatchIndsList c5ShapeIn mulFac numRefImgs' numFmaps' seqLen depThresh =
     sbind (get_reals2 query_at) (\<lambda>denseDescQuery.
     sbind (pure_step (argmax_axis0 denseDescQuery)) (\<lambda>kp2IndFlat.
       candidates_on_store
         (candidate_on_store g query_at kp2IndFlat c5ShapeIn mulFac numRefImgs' seqLen depThresh)
         topMatchIndsList))"

text \<open>
  \<open>processQueryIndex\<close> on the store: the candidate column is read through a view of
  \<open>topMatches\<close>, the loaded query tensor and its reshaped form are new objects.
\<close>

definition processQueryIndex_on_store ::
  "globals \<Rightarrow> notebook \<Rightarrow> nat \<Rightarrow> store \<Rightarrow> (error + npfloat list) \<times> store" where
  "processQueryIndex_on_store g nb qIdx =
     sbind (get_indices2 (topMatches_at g)) (\<lambda>candidates.
     sbind (pure_step (np_column candidates qIdx)) (\<lambda>topMatchIndsList.
     sbind (pure_step (loadC5Tensor (queryFiles nb) qIdx)) (\<lambda>loaded.
     sbind (new_array (Reals2 loaded)) (\<lambda>denseFtQuery_at.
     sbind (pure_step (reshape_rows loaded (numFmaps nb))) (\<lambda>reshaped.
     sbind (new_array (Reals2 reshaped)) (\<lambda>denseDescQuery_at.
       matchData_on_store g denseDescQuery_at (map int topMatchIndsList) (c5Shape nb)
         (mulFac_dep2c5 nb) (int (numRefImgs nb)) (numFmaps nb) (seqL nb) (depT nb)))))))"

text \<open>
  A step keeps the objects below an address when it leaves them as they are, shrinks
  nothing, and returns only values that satisfy a given condition.
\<close>

definition keeps ::
  "nat \<Rightarrow> (store \<Rightarrow> (error + 'a) \<times> store) \<Rightarrow> ('a \<Rightarrow> bool) \<Rightarrow> bool" where
  "keeps n m Q \<longleftrightarrow>
     (\<forall>h. n \<le> length h \<longrightarrow>
        length h \<le> length (snd (m h)) \<and> take n (snd (m h)) = take n h \<and>
        (case fst (m h) of Inl e \<Rightarrow> True | Inr x \<Rightarrow> Q x))"

text \<open>An address of the store holds an array.\<close>

definition holds :: "store \<Rightarrow> nat \<Rightarrow> ndarray \<Rightarrow> bool" where
  "holds h addr a \<longleftrightarrow> addr < length h \<and> h ! addr = a"

section \<open>The score as the specification words it\<close>

text \<open>
  The definitions of this section follow the words of the specification, not the code: they say which keypoint a channel has in a frame, when the channel passes
  the depth filter there, and what the score of a candidate is. The theorems below compare
  them with \<open>matchData\<close>.

  A well-formed data set has as many depth maps as reference tensors; every reference
  tensor has at least one cell, at most as many cells as the grid, and the same number of
  channels in every cell; every depth map has the full resolution. A well-formed query
  tensor has at least one cell and the same number of channels in every cell.
\<close>

definition wf_dataset :: "refdata \<Rightarrow> nat \<times> nat \<Rightarrow> nat \<times> nat \<Rightarrow> nat \<Rightarrow> bool" where
  "wf_dataset rd grid full C \<longleftrightarrow>
     length (depImgRefAll rd) = length (denseFtRefAll rd) \<and>
     list_all (\<lambda>t. t \<noteq> [] \<and> length t \<le> fst grid * snd grid \<and>
                    list_all (\<lambda>row. length row = C) t) (denseFtRefAll rd) \<and>
     list_all (\<lambda>d. length d = fst full \<and> list_all (\<lambda>row. length row = snd full) d)
       (depImgRefAll rd) \<and>
     0 < fst full \<and> 0 < snd full"

definition wf_query :: "tensor \<Rightarrow> nat \<Rightarrow> bool" where
  "wf_query q C \<longleftrightarrow> q \<noteq> [] \<and> list_all (\<lambda>row. length row = C) q"

definition scale_factor :: "nat \<times> nat \<Rightarrow> nat \<times> nat \<Rightarrow> real \<times> real" where
  "scale_factor grid full =
     (real (fst full) / real (fst grid), real (snd full) / real (snd grid))"

definition ref_keypoint :: "refdata \<Rightarrow> nat \<Rightarrow> nat \<Rightarrow> nat" where
  "ref_keypoint rd k c = np_argmax (column (denseFtRefAll rd ! k) c)"

definition query_keypoint :: "tensor \<Rightarrow> nat \<Rightarrow> nat" where
  "query_keypoint q c = np_argmax (column q c)"

definition keypoint_depth :: "refdata \<Rightarrow> nat \<times> nat \<Rightarrow> nat \<times> nat \<Rightarrow> nat \<Rightarrow> nat \<Rightarrow> real" where
  "keypoint_depth rd grid full k c =
     (let f = ref_keypoint rd k c;
          x = \<lfloor>real (f mod snd grid) * snd (scale_factor grid full)\<rfloor>;
          y = \<lfloor>real (f div snd grid) * fst (scale_factor grid full)\<rfloor>
      in depImgRefAll rd ! k ! nat y ! nat x)"

definition passes_depth :: "refdata \<Rightarrow> nat \<times> nat \<Rightarrow> nat \<times> nat \<Rightarrow> real \<Rightarrow> nat \<Rightarrow> nat \<Rightarrow> bool" where
  "passes_depth rd grid full depThresh k c \<longleftrightarrow>
     0 < keypoint_depth rd grid full k c \<and> keypoint_depth rd grid full k c < depThresh"

definition channel_distance :: "refdata \<Rightarrow> tensor \<Rightarrow> nat \<Rightarrow> nat \<Rightarrow> npfloat" where
  "channel_distance rd q k c =
     cosine_distance (denseFtRefAll rd ! k ! ref_keypoint rd k c) (q ! query_keypoint q c)"

text \<open>The cosine distance of two vectors of non-zero norm, as a real number.\<close>

definition cosine_real :: "real list \<Rightarrow> real list \<Rightarrow> real" where
  "cosine_real d1 d2 = 1 - dot d1 d2 / (linalg_norm d1 * linalg_norm d2)"

definition window :: "refdata \<Rightarrow> int \<Rightarrow> int \<Rightarrow> nat list" where
  "window rd seqLen r = map nat (getRefSeqInfo r (int (length (denseFtRefAll rd))) seqLen)"

definition valid_channels ::
  "refdata \<Rightarrow> tensor \<Rightarrow> nat \<times> nat \<Rightarrow> nat \<times> nat \<Rightarrow> int \<Rightarrow> real \<Rightarrow> int \<Rightarrow> nat list" where
  "valid_channels rd q grid full seqLen depThresh r =
     filter (\<lambda>c. list_ex (\<lambda>k. passes_depth rd grid full depThresh k c) (window rd seqLen r))
       [0..<length (hd q)]"

definition minimum_over :: "npfloat list \<Rightarrow> npfloat" where
  "minimum_over xs = fold np_minimum (tl xs) (hd xs)"

definition best_distance ::
  "refdata \<Rightarrow> tensor \<Rightarrow> nat \<times> nat \<Rightarrow> nat \<times> nat \<Rightarrow> int \<Rightarrow> real \<Rightarrow> int \<Rightarrow> nat \<Rightarrow> npfloat" where
  "best_distance rd q grid full seqLen depThresh r c =
     minimum_over (map (\<lambda>k. channel_distance rd q k c)
       (filter (\<lambda>k. passes_depth rd grid full depThresh k c) (window rd seqLen r)))"

definition spec_score ::
  "refdata \<Rightarrow> tensor \<Rightarrow> nat \<times> nat \<Rightarrow> nat \<times> nat \<Rightarrow> int \<Rightarrow> real \<Rightarrow> int \<Rightarrow> npfloat" where
  "spec_score rd q grid full seqLen depThresh r =
     np_mean (map (best_distance rd q grid full seqLen depThresh r)
       (valid_channels rd q grid full seqLen depThresh r))"

text \<open>
  A computed distance is not-a-number or a number of at most two; the sentinel is neither.
\<close>

definition in_cosine_range :: "npfloat \<Rightarrow> bool" where
  "in_cosine_range a \<longleftrightarrow> a = NaN \<or> (\<exists>x. a = Num x \<and> x \<le> 2)"

text \<open>
  The position that minimizes a score vector: when no score is not-a-number, the first
  position whose score is less than or equal to every score; when one is, the position of
  the first not-a-number.
\<close>

definition is_argmin :: "npfloat list \<Rightarrow> nat \<Rightarrow> bool" where
  "is_argmin xs p \<longleftrightarrow>
     p < length xs \<and>
     (if list_ex is_nan xs
      then is_nan (xs ! p) \<and> list_all (\<lambda>j. \<not> is_nan (xs ! j)) [0..<p]
      else list_all (\<lambda>j. np_less_equal (xs ! p) (xs ! j)) [0..<length xs] \<and>
           list_all (\<lambda>j. np_less (xs ! p) (xs ! j)) [0..<p])"

section \<open>Example data\<close>

text \<open>
  A small data set for the instances below: three reference frames of two cells and two
  channels on a grid of two by two cells, depth maps of two by two pixels, and a query of
  one cell. The second frame lies beyond every depth threshold used.
\<close>

abbreviation example_refs :: refdata where
  "example_refs \<equiv>
     \<lparr>denseFtRefAll = [[[1, 0], [0, 1]], [[1, 0], [0, 1]], [[0, 1], [0, 1]]],
      depImgRefAll = [[[50, 50], [7, 7]], [[200, 200], [7, 7]], [[50, 50], [7, 7]]]\<rparr>"

abbreviation example_query :: tensor where
  "example_query \<equiv> [[0, 1]]"

abbreviation example_notebook :: notebook where
  "example_notebook \<equiv>
     \<lparr>refs = example_refs, queryFiles = [example_query, example_query],
      topMatches = [[0, 2], [1, 0], [2, 1]], c5Shape = (2, 2), mulFac_dep2c5 = (1, 1),
      numRefImgs = 3, numQueryImgs = 2, numFmaps = 2, seqL = 1, depT = 98\<rparr>"


section \<open>Auxiliary facts\<close>

lemma ebind_Inr [simp]: "ebind (Inr x) f = f x"
  by (simp add: ebind_def)

lemma ebind_Inl [simp]: "ebind (Inl e) f = Inl e"
  by (simp add: ebind_def)

lemma traverse_map:
  "(\<And>x. x \<in> set xs \<Longrightarrow> f x = Inr (g x)) \<Longrightarrow> traverse f xs = Inr (map g xs)"
  by (induction xs) auto

lemma np_get_nat: "i < length xs \<Longrightarrow> np_get xs (int i) = Inr (xs ! i)"
  by (simp add: np_get_def)

section \<open>The Sequence Window Builder (C2)\<close>

lemma floor_half: "\<lfloor>real_of_int L / 2\<rfloor> = L div 2"
proof -
  have "real_of_int L / 2 = real_of_int L / real_of_int 2" by simp
  then show ?thesis by (simp only: floor_divide_of_int_eq)
qed

lemma ceiling_half: "\<lceil>real_of_int L / 2\<rceil> = L - L div 2"
proof -
  have "- (real_of_int L / 2) = real_of_int (- L) / 2" by simp
  then have "\<lfloor>- (real_of_int L / 2)\<rfloor> = (- L) div 2" by (simp only: floor_half)
  then have "\<lceil>real_of_int L / 2\<rceil> = - ((- L) div 2)" by (simp add: ceiling_def)
  also have "\<dots> = L - L div 2" by presburger
  finally show ?thesis .
qed

lemma getRefSeqInfo_eq:
  "getRefSeqInfo r n L = [max (r - L div 2) 0 .. min (r + (L - L div 2)) n - 1]"
  by (simp add: getRefSeqInfo_def floor_half ceiling_half)

lemma getRefSeqInfo_facts:
  assumes "0 \<le> r" and "r < n" and "1 \<le> L"
  shows "set (getRefSeqInfo r n L) = {k. max (r - L div 2) 0 \<le> k \<and> k < min (r + (L - L div 2)) n}
       \<and> getRefSeqInfo r n L \<noteq> []
       \<and> sorted_wrt (<) (getRefSeqInfo r n L)
       \<and> (\<forall>k \<in> set (getRefSeqInfo r n L). 0 \<le> k \<and> k < n)
       \<and> int (length (getRefSeqInfo r n L)) \<le> L"
proof -
  define d where "d = L div 2"
  define lb where "lb = max (r - d) 0"
  define ub where "ub = min (r + (L - d)) n"
  have e: "getRefSeqInfo r n L = [lb .. ub - 1]"
    unfolding lb_def ub_def d_def by (rule getRefSeqInfo_eq)
  have h: "0 \<le> d" "d < L" using assms(3) unfolding d_def by presburger+
  have lt: "lb \<le> r" "r < ub" "0 \<le> lb" "ub \<le> n" "ub - lb \<le> L"
    using assms h unfolding lb_def ub_def by linarith+
  have 1: "set (getRefSeqInfo r n L) = {k. lb \<le> k \<and> k < ub}" unfolding e by auto
  have 2: "getRefSeqInfo r n L \<noteq> []" using lt unfolding e by simp
  have 3: "sorted_wrt (<) (getRefSeqInfo r n L)" unfolding e by (simp add: sorted_wrt_upto) 
  have 4: "\<forall>k \<in> set (getRefSeqInfo r n L). 0 \<le> k \<and> k < n" unfolding 1 using lt by auto
  have 5: "int (length (getRefSeqInfo r n L)) \<le> L" unfolding e using lt by simp
  show ?thesis using 1 2 3 4 5 unfolding lb_def ub_def d_def by blast
qed





section \<open>The Depth Filter (C3)\<close>

text \<open>
  C3. For every vector of depths and every pair of bounds, \<open>filterKPs_depth\<close> returns
  exactly the positions \<open>i\<close> below the length of the vector whose depth lies strictly
  between the bounds, in ascending order; so every returned position is below the length
  and its depth is strictly inside the open interval.
\<close>

theorem filterKPs_depth_exact:
  "set (filterKPs_depth d lo hi) = {i. i < length d \<and> lo < d ! i \<and> d ! i < hi}
   \<and> sorted_wrt (<) (filterKPs_depth d lo hi)
   \<and> (\<forall>i \<in> set (filterKPs_depth d lo hi). i < length d \<and> lo < d ! i \<and> d ! i < hi)"
  by (auto simp: filterKPs_depth_def intro!: sorted_wrt_filter)

theorem filterKPs_depth_exact_witness:
  "filterKPs_depth [1, 50, 200, 0, 98] 0 98 = [0, 1]
   \<and> {i. i < length [1, 50, 200, 0, 98::real] \<and> 0 < [1, 50, 200, 0, 98::real] ! i \<and> [1, 50, 200, 0, 98::real] ! i < 98} = {0, 1}"
proof -
  have e: "filterKPs_depth [1, 50, 200, 0, 98] 0 98 = [0, 1]"
    by (simp add: filterKPs_depth_def upt_conv_Cons)
  show ?thesis using filterKPs_depth_exact[of "[1, 50, 200, 0, 98]" 0 98] unfolding e by simp
qed

section \<open>The Keypoint Projector (C4)\<close>

lemma np_get_in_range:
  "0 \<le> i \<Longrightarrow> i < int (length xs) \<Longrightarrow> np_get xs i = Inr (xs ! nat i)"
  by (simp add: np_get_def)

lemma astype_int_nonneg: "0 \<le> x \<Longrightarrow> astype_int x = \<lfloor>x\<rfloor>"
  by (simp add: astype_int_def)

lemma scale_bounds:
  assumes "i < g" and "0 < full"
  shows "0 \<le> real full / real g * real i" and "real full / real g * real i < real full"
proof -
  have g: "0 < real g" using assms(1) by simp
  show "0 \<le> real full / real g * real i" by simp
  have "real i / real g < 1" using assms(1) g by simp
  then have "real full * (real i / real g) < real full * 1"
    using assms(2) by (intro mult_strict_left_mono) simp_all
  then show "real full / real g * real i < real full" by (simp add: field_simps)
qed

lemma getKP2d_eq:
  assumes "\<forall>f \<in> set kpInds. f < gridRows * gridCols"
  shows "getKP2d kpInds (gridRows, gridCols) mulFac =
           Inr (map (\<lambda>f. (astype_int (snd mulFac * real (f mod gridCols)),
                           astype_int (fst mulFac * real (f div gridCols)))) kpInds)"
proof -
  have "traverse (\<lambda>f. unravel_index f (gridRows, gridCols)) kpInds
          = Inr (map (\<lambda>f. (f div gridCols, f mod gridCols)) kpInds)"
    using assms by (intro traverse_map) (simp add: unravel_index_def)
  then show ?thesis by (simp add: getKP2d_def comp_def)
qed

lemma project_keypoints:
  assumes inds: "\<forall>f \<in> set kpInds. f < gridRows * gridCols"
    and rows: "length depImg = fullRows" "0 < fullRows"
    and cols: "\<forall>row \<in> set depImg. length row = fullCols" "0 < fullCols"
  shows "getKP2d kpInds (gridRows, gridCols)
             (real fullRows / real gridRows, real fullCols / real gridCols)
           = Inr (map (\<lambda>f. (\<lfloor>real (f mod gridCols) * (real fullCols / real gridCols)\<rfloor>,
                            \<lfloor>real (f div gridCols) * (real fullRows / real gridRows)\<rfloor>)) kpInds)
       \<and> getKpDep kpInds depImg (gridRows, gridCols)
             (real fullRows / real gridRows, real fullCols / real gridCols)
           = Inr (map (\<lambda>f. depImg
                             ! nat \<lfloor>real (f div gridCols) * (real fullRows / real gridRows)\<rfloor>
                             ! nat \<lfloor>real (f mod gridCols) * (real fullCols / real gridCols)\<rfloor>) kpInds)"
proof -
  let ?sr = "real fullRows / real gridRows" and ?sc = "real fullCols / real gridCols"
  let ?x = "\<lambda>f. \<lfloor>real (f mod gridCols) * ?sc\<rfloor>" and ?y = "\<lambda>f. \<lfloor>real (f div gridCols) * ?sr\<rfloor>"
  have kp: "getKP2d kpInds (gridRows, gridCols) (?sr, ?sc) = Inr (map (\<lambda>f. (?x f, ?y f)) kpInds)"
  proof -
    have "astype_int (?sc * real (f mod gridCols)) = ?x f"
      and "astype_int (?sr * real (f div gridCols)) = ?y f" for f
      by (simp_all add: astype_int_nonneg mult.commute)
    then show ?thesis using getKP2d_eq[OF inds, of "(?sr, ?sc)"] by simp
  qed
  have rd: "(case (?x f, ?y f) of (x, y) \<Rightarrow> ebind (np_get depImg y) (\<lambda>row. np_get row x))
              = Inr (depImg ! nat (?y f) ! nat (?x f))" if f: "f \<in> set kpInds" for f
  proof -
    from inds f have lt: "f < gridRows * gridCols" by blast
    then have gc: "0 < gridCols" by (cases gridCols) simp_all
    have r: "f div gridCols < gridRows" using lt by (simp add: less_mult_imp_div_less)
    have c: "f mod gridCols < gridCols" using gc by simp
    have y0: "0 \<le> ?y f" by simp
    have "?sr * real (f div gridCols) < real fullRows" using scale_bounds(2)[OF r rows(2)] .
    then have y1: "?y f < int fullRows" by (simp add: floor_less_iff mult.commute)
    have x0: "0 \<le> ?x f" by simp
    have "?sc * real (f mod gridCols) < real fullCols" using scale_bounds(2)[OF c cols(2)] .
    then have x1: "?x f < int fullCols" by (simp add: floor_less_iff mult.commute)
    have ny: "nat (?y f) < length depImg" using y0 y1 rows(1) by linarith
    have g1: "np_get depImg (?y f) = Inr (depImg ! nat (?y f))"
      using y0 y1 rows(1) by (intro np_get_in_range) simp_all
    have "length (depImg ! nat (?y f)) = fullCols" using cols(1) ny by simp
    then have g2: "np_get (depImg ! nat (?y f)) (?x f) = Inr (depImg ! nat (?y f) ! nat (?x f))"
      using x0 x1 by (intro np_get_in_range) simp_all
    show ?thesis using g1 g2 by simp
  qed
  have "traverse (\<lambda>(x, y). ebind (np_get depImg y) (\<lambda>row. np_get row x)) (map (\<lambda>f. (?x f, ?y f)) kpInds)
          = Inr (map (\<lambda>p. depImg ! nat (snd p) ! nat (fst p)) (map (\<lambda>f. (?x f, ?y f)) kpInds))"
    by (rule traverse_map) (use rd in auto)
  then have "getKpDep kpInds depImg (gridRows, gridCols) (?sr, ?sc)
          = Inr (map (\<lambda>f. depImg ! nat (?y f) ! nat (?x f)) kpInds)"
    unfolding getKpDep_def kp by (simp add: comp_def)
  then show ?thesis using kp by simp
qed



section \<open>The cosine distance lies between zero and two\<close>

lemma sumsq_nonneg: "0 \<le> sum_list (map (\<lambda>x. x * x) (d::real list))"
  by (induction d) simp_all

lemma cross_bound:
  fixes x y D A B :: real
  assumes D: "D\<^sup>2 \<le> A * B" and A: "0 \<le> A" and B: "0 \<le> B"
  shows "2 * (x * y * D) \<le> x\<^sup>2 * B + A * y\<^sup>2"
proof -
  have nn: "0 \<le> x\<^sup>2 * B + A * y\<^sup>2" using A B by simp
  have "(2 * (x * y * D))\<^sup>2 = 4 * (x\<^sup>2 * y\<^sup>2) * D\<^sup>2" by (simp add: power2_eq_square algebra_simps)
  also have "\<dots> \<le> 4 * (x\<^sup>2 * y\<^sup>2) * (A * B)"
    using D by (intro mult_left_mono) simp_all
  also have "\<dots> = 4 * (x\<^sup>2 * B) * (A * y\<^sup>2)" by (simp add: algebra_simps)
  also have "\<dots> \<le> (x\<^sup>2 * B + A * y\<^sup>2)\<^sup>2"
  proof -
    have "0 \<le> (x\<^sup>2 * B - A * y\<^sup>2)\<^sup>2" by simp
    then show ?thesis by (simp add: power2_eq_square algebra_simps)
  qed
  finally have "(2 * (x * y * D))\<^sup>2 \<le> (x\<^sup>2 * B + A * y\<^sup>2)\<^sup>2" .
  then show ?thesis using nn by (rule power2_le_imp_le)
qed

lemma dot_squared_bound:
  "(dot d1 d2)\<^sup>2 \<le> sum_list (map (\<lambda>x. x * x) d1) * sum_list (map (\<lambda>x. x * x) d2)"
proof (induction d1 d2 rule: list_induct2')
  case 1
  then show ?case by (simp add: dot_def)
next
  case (2 x xs)
  then show ?case by (simp add: dot_def)
next
  case (3 y ys)
  then show ?case by (simp add: dot_def)
next
  case (4 x xs y ys)
  let ?D = "dot xs ys" and ?A = "sum_list (map (\<lambda>x. x * x) xs)" and ?B = "sum_list (map (\<lambda>x. x * x) ys)"
  have IH: "?D\<^sup>2 \<le> ?A * ?B" using 4 by simp
  have c: "2 * (x * y * ?D) \<le> x\<^sup>2 * ?B + ?A * y\<^sup>2"
    using cross_bound[OF IH sumsq_nonneg sumsq_nonneg] .
  have "(dot (x # xs) (y # ys))\<^sup>2 = (x * y)\<^sup>2 + 2 * (x * y * ?D) + ?D\<^sup>2"
    by (simp add: dot_def power2_eq_square algebra_simps)
  also have "\<dots> \<le> (x * y)\<^sup>2 + (x\<^sup>2 * ?B + ?A * y\<^sup>2) + ?A * ?B"
    using c IH by linarith
  also have "\<dots> = (x * x + ?A) * (y * y + ?B)"
    by (simp add: power2_eq_square algebra_simps)
  finally show ?case by simp
qed

lemma dot_abs_bound: "\<bar>dot d1 d2\<bar> \<le> linalg_norm d1 * linalg_norm d2"
proof -
  have "\<bar>dot d1 d2\<bar> = sqrt ((dot d1 d2)\<^sup>2)" by simp
  also have "\<dots> \<le> sqrt (sum_list (map (\<lambda>x. x * x) d1) * sum_list (map (\<lambda>x. x * x) d2))"
    using dot_squared_bound by (rule real_sqrt_le_mono)
  also have "\<dots> = linalg_norm d1 * linalg_norm d2"
    by (simp add: linalg_norm_def real_sqrt_mult)
  finally show ?thesis .
qed

lemma linalg_norm_nonneg: "0 \<le> linalg_norm d"
  by (simp add: linalg_norm_def sumsq_nonneg)

lemma cosine_distance_range:
  assumes "cosine_distance d1 d2 = Num x"
  shows "0 \<le> x \<and> x \<le> 2"
proof -
  let ?n = "linalg_norm d1 * linalg_norm d2"
  from assms have nz: "?n \<noteq> 0" and x: "x = 1 - dot d1 d2 / ?n"
    by (auto simp: cosine_distance_def np_divide_def split: if_splits)
  have pos: "0 < ?n" using nz linalg_norm_nonneg[of d1] linalg_norm_nonneg[of d2]
    by (metis less_eq_real_def mult_nonneg_nonneg)
  have "\<bar>dot d1 d2 / ?n\<bar> \<le> 1" using dot_abs_bound[of d1 d2] pos by simp
  then show ?thesis using x by linarith
qed

lemma cosine_distance_cases:
  "cosine_distance d1 d2 = NaN \<or> (\<exists>x. cosine_distance d1 d2 = Num x \<and> x \<le> 2)"
  using cosine_distance_range by (cases "cosine_distance d1 d2") auto

section \<open>One frame of the window\<close>

lemma first_index_less: "\<exists>x \<in> set xs. P x \<Longrightarrow> first_index P xs < length xs"
  by (induction xs) auto

lemma np_argmax_less: "xs \<noteq> [] \<Longrightarrow> np_argmax xs < length xs"
  unfolding np_argmax_def
  by (rule first_index_less) (metis List.finite_set Max_in set_empty2)

lemma list_all_nth: "list_all P xs \<Longrightarrow> i < length xs \<Longrightarrow> P (xs ! i)"
  by (simp add: list_all_length)

lemma argmax_axis0_eq:
  assumes "t \<noteq> []" and "list_all (\<lambda>row. length row = C) t"
  shows "argmax_axis0 t = Inr (map (\<lambda>c. np_argmax (column t c)) [0..<C])"
proof -
  have "length (hd t) = C" using assms by (cases t) simp_all
  then show ?thesis using assms(1) by (simp add: argmax_axis0_def)
qed

lemma column_argmax_less: "t \<noteq> [] \<Longrightarrow> np_argmax (column t c) < length t"
  using np_argmax_less[of "column t c"] by (simp add: column_def)

lemma take_inds_eq:
  "\<forall>i \<in> set inds. i < length xs \<Longrightarrow> take_inds xs inds = Inr (map (\<lambda>i. xs ! i) inds)"
  unfolding take_inds_def by (rule traverse_map) (simp add: np_get_nat)

lemma wf_dataset_frame:
  assumes "wf_dataset rd grid full C" and "k < length (denseFtRefAll rd)"
  shows "denseFtRefAll rd ! k \<noteq> []"
    and "length (denseFtRefAll rd ! k) \<le> fst grid * snd grid"
    and "list_all (\<lambda>row. length row = C) (denseFtRefAll rd ! k)"
    and "k < length (depImgRefAll rd)"
    and "length (depImgRefAll rd ! k) = fst full"
    and "\<forall>row \<in> set (depImgRefAll rd ! k). length row = snd full"
    and "0 < fst full" and "0 < snd full"
proof -
  from assms have a: "length (depImgRefAll rd) = length (denseFtRefAll rd)"
    and b: "list_all (\<lambda>t. t \<noteq> [] \<and> length t \<le> fst grid * snd grid \<and>
                    list_all (\<lambda>row. length row = C) t) (denseFtRefAll rd)"
    and c: "list_all (\<lambda>d. length d = fst full \<and> list_all (\<lambda>row. length row = snd full) d)
       (depImgRefAll rd)"
    and d: "0 < fst full" "0 < snd full"
    by (simp_all add: wf_dataset_def)
  from list_all_nth[OF b assms(2)]
  show "denseFtRefAll rd ! k \<noteq> []"
    and "length (denseFtRefAll rd ! k) \<le> fst grid * snd grid"
    and "list_all (\<lambda>row. length row = C) (denseFtRefAll rd ! k)" by simp_all
  show k: "k < length (depImgRefAll rd)" using a assms(2) by simp
  from list_all_nth[OF c k]
  show "length (depImgRefAll rd ! k) = fst full"
    and "\<forall>row \<in> set (depImgRefAll rd ! k). length row = snd full"
    by (simp_all add: list_all_iff)
  show "0 < fst full" "0 < snd full" by fact+
qed

lemma frameDists_eq:
  assumes wf: "wf_dataset rd grid full C" and q: "wf_query q C"
    and k: "k < length (denseFtRefAll rd)"
  shows "frameDists rd q (map (query_keypoint q) [0..<C]) grid (scale_factor grid full) depThresh (int k)
           = Inr (filter (passes_depth rd grid full depThresh k) [0..<C],
                  map (channel_distance rd q k) (filter (passes_depth rd grid full depThresh k) [0..<C]))"
proof -
  let ?t = "denseFtRefAll rd ! k" and ?d = "depImgRefAll rd ! k"
  let ?kp1 = "map (\<lambda>c. np_argmax (column ?t c)) [0..<C]"
  let ?kp2 = "map (query_keypoint q) [0..<C]"
  let ?inds = "filter (passes_depth rd grid full depThresh k) [0..<C]"
  note f = wf_dataset_frame[OF wf k]
  have g1: "np_get (denseFtRefAll rd) (int k) = Inr ?t" using k by (rule np_get_nat)
  have g2: "argmax_axis0 ?t = Inr ?kp1" using f(1,3) by (rule argmax_axis0_eq)
  have g3: "np_get (depImgRefAll rd) (int k) = Inr ?d" using f(4) by (rule np_get_nat)
  have cells: "\<forall>f \<in> set ?kp1. f < fst grid * snd grid"
  proof
    fix f assume "f \<in> set ?kp1"
    then obtain c where "f = np_argmax (column ?t c)" by auto
    then have "f < length ?t" using column_argmax_less[OF f(1)] by simp
    then show "f < fst grid * snd grid" using f(2) by linarith
  qed
  have g4: "getKpDep ?kp1 ?d grid (scale_factor grid full)
              = Inr (map (keypoint_depth rd grid full k) [0..<C])"
  proof -
    have "getKpDep ?kp1 ?d (fst grid, snd grid)
              (real (fst full) / real (fst grid), real (snd full) / real (snd grid))
            = Inr (map (\<lambda>f. ?d ! nat \<lfloor>real (f div snd grid) * (real (fst full) / real (fst grid))\<rfloor>
                              ! nat \<lfloor>real (f mod snd grid) * (real (snd full) / real (snd grid))\<rfloor>) ?kp1)"
      using project_keypoints[OF _ f(5) f(7) f(6) f(8), of ?kp1 "fst grid" "snd grid"] cells
      by blast
    then show ?thesis
      by (simp add: scale_factor_def keypoint_depth_def ref_keypoint_def comp_def Let_def)
  qed
  have g5: "filterKPs_depth (map (keypoint_depth rd grid full k) [0..<C]) 0 depThresh = ?inds"
    unfolding filterKPs_depth_def
    by (rule filter_cong) (auto simp: passes_depth_def)
  have lt: "\<forall>i \<in> set ?inds. i < C" by simp
  have g6: "take_inds ?kp1 ?inds = Inr (map (\<lambda>i. ?kp1 ! i) ?inds)"
    by (rule take_inds_eq) simp
  have g7: "take_inds ?t (map (\<lambda>i. ?kp1 ! i) ?inds) = Inr (map (\<lambda>i. ?t ! i) (map (\<lambda>i. ?kp1 ! i) ?inds))"
    by (rule take_inds_eq) (use column_argmax_less[OF f(1)] in auto)
  have g8: "take_inds ?kp2 ?inds = Inr (map (\<lambda>i. ?kp2 ! i) ?inds)"
    by (rule take_inds_eq) simp
  have qne: "q \<noteq> []" using q by (simp add: wf_query_def)
  have g9: "take_inds q (map (\<lambda>i. ?kp2 ! i) ?inds) = Inr (map (\<lambda>i. q ! i) (map (\<lambda>i. ?kp2 ! i) ?inds))"
    by (rule take_inds_eq) (use column_argmax_less[OF qne] in \<open>auto simp: query_keypoint_def\<close>)
  have g10: "get_cosine_corresponding_vectors (map (\<lambda>i. ?t ! i) (map (\<lambda>i. ?kp1 ! i) ?inds))
               (map (\<lambda>i. q ! i) (map (\<lambda>i. ?kp2 ! i) ?inds))
             = map (channel_distance rd q k) ?inds"
    unfolding get_cosine_corresponding_vectors_def
    by (rule nth_equalityI)
       (auto simp: channel_distance_def ref_keypoint_def dest: nth_mem)
  show ?thesis
    unfolding frameDists_def g1 g2 g3 g4 ebind_Inr Let_def g5 g6 g7 g8 g9 g10 ..
qed

section \<open>The distance table of a candidate\<close>

lemma assign_column_length:
  "length (assign_column M inds lc dists) = length M"
proof -
  have "length (fold (\<lambda>(c, d) m. m[c := (m ! c)[lc := d]]) ps M) = length M" for ps
    by (induction ps arbitrary: M) (auto split: prod.splits)
  then show ?thesis by (simp add: assign_column_def)
qed

lemma assign_column_nth:
  assumes "c < length M"
  shows "assign_column M inds lc (map g inds) ! c
           = (if c \<in> set inds then (M ! c)[lc := g c] else M ! c)"
  using assms
proof (induction inds arbitrary: M)
  case Nil
  then show ?case by (simp add: assign_column_def)
next
  case (Cons i inds)
  let ?M = "M[i := (M ! i)[lc := g i]]"
  have step: "assign_column M (i # inds) lc (map g (i # inds)) = assign_column ?M inds lc (map g inds)"
    by (simp add: assign_column_def)
  have len: "c < length ?M" using Cons.prems by simp
  have Mc: "?M ! c = (if c = i then (M ! i)[lc := g i] else M ! c)"
    using Cons.prems by (simp add: nth_list_update)
  show ?case unfolding step Cons.IH[OF len] Mc by auto
qed

text \<open>The table after the loop over the frames \<open>ks\<close>, written from column \<open>m\<close> on.\<close>

lemma fill_distMat_rows:
  assumes wf: "wf_dataset rd grid full C" and q: "wf_query q C"
    and ks: "\<forall>k \<in> set ks. 0 \<le> k \<and> k < int (length (denseFtRefAll rd))"
    and M: "length M = C"
  shows "\<exists>M'. fill_distMat rd q (map (query_keypoint q) [0..<C]) grid (scale_factor grid full)
                 depThresh (enumerate m ks) M = Inr M'
             \<and> length M' = C
             \<and> (\<forall>c < C. M' ! c = fold (\<lambda>(j, k) row.
                    if passes_depth rd grid full depThresh (nat k) c
                    then row[j := channel_distance rd q (nat k) c] else row)
                  (enumerate m ks) (M ! c))"
  using ks M
proof (induction ks arbitrary: m M)
  case Nil
  then show ?case by simp
next
  case (Cons k ks)
  let ?inds = "filter (passes_depth rd grid full depThresh (nat k)) [0..<C]"
  let ?M = "assign_column M ?inds m (map (channel_distance rd q (nat k)) ?inds)"
  from Cons.prems(1) have k: "nat k < length (denseFtRefAll rd)" and ik: "int (nat k) = k"
    and rest: "\<forall>k \<in> set ks. 0 \<le> k \<and> k < int (length (denseFtRefAll rd))" by auto
  have fd: "frameDists rd q (map (query_keypoint q) [0..<C]) grid (scale_factor grid full) depThresh k
              = Inr (?inds, map (channel_distance rd q (nat k)) ?inds)"
    using frameDists_eq[OF wf q k, of depThresh] by (simp only: ik)
  have lenM: "length ?M = C" using Cons.prems(2) by (simp add: assign_column_length)
  from Cons.IH[OF rest lenM, of "Suc m"] obtain M' where
    M': "fill_distMat rd q (map (query_keypoint q) [0..<C]) grid (scale_factor grid full)
            depThresh (enumerate (Suc m) ks) ?M = Inr M'"
    and len': "length M' = C"
    and rows': "\<forall>c < C. M' ! c = fold (\<lambda>(j, k) row.
                    if passes_depth rd grid full depThresh (nat k) c
                    then row[j := channel_distance rd q (nat k) c] else row)
                  (enumerate (Suc m) ks) (?M ! c)"
    by blast
  have run: "fill_distMat rd q (map (query_keypoint q) [0..<C]) grid (scale_factor grid full)
                 depThresh (enumerate m (k # ks)) M = Inr M'"
    by (simp add: fd M')
  have row: "?M ! c = (if passes_depth rd grid full depThresh (nat k) c
                       then (M ! c)[m := channel_distance rd q (nat k) c] else M ! c)"
    if "c < C" for c
    using assign_column_nth[of c M ?inds m "channel_distance rd q (nat k)"] that Cons.prems(2)
    by simp
  show ?case using run len' rows' row by (intro exI[of _ M']) simp
qed

lemma fold_cells:
  assumes "length row = m + length ks" and "\<forall>j. m \<le> j \<and> j < length row \<longrightarrow> row ! j = s"
  shows "fold (\<lambda>(j, k) row. if P k then row[j := g k] else row) (enumerate m ks) row
           = take m row @ map (\<lambda>k. if P k then g k else s) ks"
  using assms
proof (induction ks arbitrary: m row)
  case Nil
  then show ?case by simp
next
  case (Cons k ks)
  let ?row = "if P k then row[m := g k] else row"
  have len: "length ?row = Suc m + length ks" using Cons.prems(1) by simp
  have sent: "\<forall>j. Suc m \<le> j \<and> j < length ?row \<longrightarrow> ?row ! j = s"
    using Cons.prems(2) by auto
  have "take (Suc m) ?row = take m row @ [if P k then g k else s]"
    using Cons.prems by (auto simp: take_Suc_conv_app_nth)
  then show ?case using Cons.IH[OF len sent] by simp
qed

lemma np_minimum_sentinel: "in_cosine_range a \<Longrightarrow> np_minimum (Num 100) a = a"
  "in_cosine_range a \<Longrightarrow> np_minimum a (Num 100) = a"
  by (auto simp: in_cosine_range_def np_minimum_def)

lemma np_minimum_in_range: "in_cosine_range a \<Longrightarrow> in_cosine_range b \<Longrightarrow> in_cosine_range (np_minimum a b)"
  by (auto simp: in_cosine_range_def np_minimum_def min_def)

lemma fold_minimum_in_range:
  "in_cosine_range a \<Longrightarrow> \<forall>x \<in> set xs. in_cosine_range x \<Longrightarrow> in_cosine_range (fold np_minimum xs a)"
  by (induction xs arbitrary: a) (simp_all add: np_minimum_in_range)

lemma cosine_not_sentinel: "in_cosine_range a \<Longrightarrow> a \<noteq> Num 100"
  by (auto simp: in_cosine_range_def)

lemma fold_minimum_cells:
  assumes "\<forall>k. in_cosine_range (g k)"
  shows "in_cosine_range a \<Longrightarrow> fold np_minimum (map (\<lambda>k. if P k then g k else Num 100) ks) a
           = fold np_minimum (map g (filter P ks)) a"
proof (induction ks arbitrary: a)
  case Nil
  then show ?case by simp
next
  case (Cons k ks)
  then show ?case using assms by (simp add: np_minimum_sentinel np_minimum_in_range)
qed

lemma fold_minimum_from_sentinel:
  assumes "\<forall>k. in_cosine_range (g k)"
  shows "fold np_minimum (map (\<lambda>k. if P k then g k else Num 100) ks) (Num 100)
           = (if list_ex P ks then minimum_over (map g (filter P ks)) else Num 100)"
proof (induction ks)
  case Nil
  then show ?case by simp
next
  case (Cons k ks)
  show ?case
  proof (cases "P k")
    case True
    have "in_cosine_range (np_minimum (g k) (Num 100))" using assms by (simp add: np_minimum_sentinel)
    then show ?thesis using True assms fold_minimum_cells[OF assms, of "g k" P ks]
      by (simp add: minimum_over_def np_minimum_sentinel)
  next
    case False
    then show ?thesis using Cons by (simp add: np_minimum_def)
  qed
qed

lemma minimum_over_cells:
  assumes "\<forall>k. in_cosine_range (g k)" and "ks \<noteq> []"
  shows "minimum_over (map (\<lambda>k. if P k then g k else Num 100) ks)
           = (if list_ex P ks then minimum_over (map g (filter P ks)) else Num 100)"
proof -
  from assms(2) obtain k rest where ks: "ks = k # rest" by (cases ks) auto
  show ?thesis
  proof (cases "P k")
    case True
    then show ?thesis using fold_minimum_cells[OF assms(1), of "g k" P rest] assms(1)
      by (simp add: ks minimum_over_def)
  next
    case False
    then show ?thesis using fold_minimum_from_sentinel[OF assms(1), of P rest]
      by (simp add: ks minimum_over_def)
  qed
qed

lemma minimum_over_in_range:
  assumes "xs \<noteq> []" and "\<forall>x \<in> set xs. in_cosine_range x"
  shows "in_cosine_range (minimum_over xs)"
proof -
  from assms(1) obtain x rest where "xs = x # rest" by (cases xs) auto
  then show ?thesis using assms(2) by (simp add: minimum_over_def fold_minimum_in_range)
qed

lemma channel_distance_in_range: "in_cosine_range (channel_distance rd q k c)"
  unfolding in_cosine_range_def channel_distance_def by (rule cosine_distance_cases)

lemma hd_query_length: "wf_query q C \<Longrightarrow> length (hd q) = C"
  by (cases q) (simp_all add: wf_query_def)

lemma np_min_nonempty: "xs \<noteq> [] \<Longrightarrow> np_min xs = Inr (minimum_over xs)"
  by (cases xs) (simp_all add: np_min_def minimum_over_def)

section \<open>The Candidate Re-ranker computes the specified score (C1)\<close>

lemma window_facts:
  assumes "0 \<le> r" and "r < n" and "1 \<le> L"
  shows "getRefSeqInfo r n L \<noteq> []" and "\<forall>k \<in> set (getRefSeqInfo r n L). 0 \<le> k \<and> k < n"
  using getRefSeqInfo_facts[OF assms] by blast+

lemma candidateMinDists_eq:
  assumes wf: "wf_dataset rd grid full C" and q: "wf_query q C"
    and r: "0 \<le> r" "r < int (length (denseFtRefAll rd))" and L: "1 \<le> seqLen"
  shows "candidateMinDists rd q (map (query_keypoint q) [0..<C]) grid (scale_factor grid full)
           (int (length (denseFtRefAll rd))) seqLen depThresh r
         = Inr (map (\<lambda>c. minimum_over (map (\<lambda>k. if passes_depth rd grid full depThresh k c
                                                 then channel_distance rd q k c else Num 100)
                                         (window rd seqLen r))) [0..<C])"
proof -
  let ?W = "getRefSeqInfo r (int (length (denseFtRefAll rd))) seqLen"
  let ?N = "length ?W"
  let ?M0 = "replicate C (replicate ?N (Num 100))"
  let ?cell = "\<lambda>c k. if passes_depth rd grid full depThresh k c
                       then channel_distance rd q k c else Num 100"
  note w = window_facts[OF r L]
  have N: "?N \<noteq> 0" using w(1) by simp
  from fill_distMat_rows[OF wf q w(2), of ?M0 depThresh 0] obtain M' where
    run: "fill_distMat rd q (map (query_keypoint q) [0..<C]) grid (scale_factor grid full)
            depThresh (enumerate 0 ?W) ?M0 = Inr M'"
    and len: "length M' = C"
    and rows: "\<forall>c < C. M' ! c = fold (\<lambda>(j, k) row.
                    if passes_depth rd grid full depThresh (nat k) c
                    then row[j := channel_distance rd q (nat k) c] else row)
                  (enumerate 0 ?W) (?M0 ! c)"
    by auto
  have row: "M' ! c = map (?cell c) (window rd seqLen r)" if c: "c < C" for c
  proof -
    have "fold (\<lambda>(j, k) row. if passes_depth rd grid full depThresh (nat k) c
                    then row[j := channel_distance rd q (nat k) c] else row)
            (enumerate 0 ?W) (replicate ?N (Num 100))
          = take 0 (replicate ?N (Num 100))
            @ map (\<lambda>k. if passes_depth rd grid full depThresh (nat k) c
                        then channel_distance rd q (nat k) c else Num 100) ?W"
      by (rule fold_cells) simp_all
    then show ?thesis using rows c by (simp add: window_def comp_def)
  qed
  have M': "M' = map (\<lambda>c. map (?cell c) (window rd seqLen r)) [0..<C]"
    by (rule nth_equalityI) (simp_all add: len row)
  have wne: "window rd seqLen r \<noteq> []" using w(1) by (simp add: window_def)
  have "traverse np_min M' = Inr (map minimum_over M')"
    by (rule traverse_map) (use M' wne in \<open>auto intro!: np_min_nonempty\<close>)
  then have "min_axis1 ?N M' = Inr (map (\<lambda>c. minimum_over (map (?cell c) (window rd seqLen r))) [0..<C])"
    using N by (simp add: min_axis1_def M' comp_def)
  then show ?thesis
    unfolding candidateMinDists_def Let_def hd_query_length[OF q] run ebind_Inr .
qed

lemma collapsed_cells:
  assumes "window rd seqLen r \<noteq> []"
  shows "minimum_over (map (\<lambda>k. if passes_depth rd grid full depThresh k c
                                 then channel_distance rd q k c else Num 100) (window rd seqLen r))
         = (if list_ex (\<lambda>k. passes_depth rd grid full depThresh k c) (window rd seqLen r)
            then best_distance rd q grid full seqLen depThresh r c else Num 100)"
  unfolding best_distance_def
  by (rule minimum_over_cells) (use assms channel_distance_in_range in auto)

lemma best_distance_in_range:
  assumes "list_ex (\<lambda>k. passes_depth rd grid full depThresh k c) (window rd seqLen r)"
  shows "in_cosine_range (best_distance rd q grid full seqLen depThresh r c)"
  unfolding best_distance_def
proof (rule minimum_over_in_range)
  show "map (\<lambda>k. channel_distance rd q k c)
          (filter (\<lambda>k. passes_depth rd grid full depThresh k c) (window rd seqLen r)) \<noteq> []"
    using assms by (auto simp: list_ex_iff filter_empty_conv)
  show "\<forall>x \<in> set (map (\<lambda>k. channel_distance rd q k c)
          (filter (\<lambda>k. passes_depth rd grid full depThresh k c) (window rd seqLen r))). in_cosine_range x"
    by (auto simp: channel_distance_in_range)
qed

lemma candidateScore_eq:
  assumes wf: "wf_dataset rd grid full C" and q: "wf_query q C"
    and r: "0 \<le> r" "r < int (length (denseFtRefAll rd))" and L: "1 \<le> seqLen"
  shows "candidateScore rd q (map (query_keypoint q) [0..<C]) grid (scale_factor grid full)
           (int (length (denseFtRefAll rd))) seqLen depThresh r
         = Inr (spec_score rd q grid full seqLen depThresh r)"
proof -
  let ?P = "\<lambda>c. list_ex (\<lambda>k. passes_depth rd grid full depThresh k c) (window rd seqLen r)"
  let ?v = "\<lambda>c. if ?P c then best_distance rd q grid full seqLen depThresh r c else Num 100"
  let ?minDists = "map ?v [0..<C]"
  have wne: "window rd seqLen r \<noteq> []" using window_facts(1)[OF r L] by (simp add: window_def)
  have md: "candidateMinDists rd q (map (query_keypoint q) [0..<C]) grid (scale_factor grid full)
           (int (length (denseFtRefAll rd))) seqLen depThresh r = Inr ?minDists"
    unfolding candidateMinDists_eq[OF wf q r L] collapsed_cells[OF wne] ..
  have valid: "filter (\<lambda>c. ?minDists ! c \<noteq> Num 100) [0..<length ?minDists]
                 = valid_channels rd q grid full seqLen depThresh r"
    unfolding valid_channels_def hd_query_length[OF q]
    by (rule filter_cong) (use best_distance_in_range cosine_not_sentinel in auto)
  have vals: "map (\<lambda>c. ?minDists ! c) (valid_channels rd q grid full seqLen depThresh r)
                = map (best_distance rd q grid full seqLen depThresh r)
                    (valid_channels rd q grid full seqLen depThresh r)"
    by (rule map_cong) (auto simp: valid_channels_def hd_query_length[OF q])
  show ?thesis
    unfolding candidateScore_def md ebind_Inr Let_def valid vals spec_score_def ..
qed

lemma matchData_eq:
  assumes wf: "wf_dataset rd grid full C" and q: "wf_query q C"
    and cands: "\<forall>r \<in> set topMatchIndsList. 0 \<le> r \<and> r < int (length (denseFtRefAll rd))"
    and L: "1 \<le> seqLen"
  shows "matchData rd q topMatchIndsList grid (scale_factor grid full)
           (int (length (denseFtRefAll rd))) numFmaps' seqLen depThresh
         = Inr (map (spec_score rd q grid full seqLen depThresh) topMatchIndsList)"
proof -
  have am: "argmax_axis0 q = Inr (map (query_keypoint q) [0..<C])"
    using argmax_axis0_eq[of q C] q by (simp add: wf_query_def query_keypoint_def)
  show ?thesis
    unfolding matchData_def am ebind_Inr
    by (rule traverse_map) (use candidateScore_eq[OF wf q _ _ L] cands in auto)
qed

lemma example_wf: "wf_dataset example_refs (2, 2) (2, 2) 2"
  by (simp add: wf_dataset_def)

lemma example_query_wf: "wf_query example_query 2"
  by (simp add: wf_query_def)

lemma example_scale: "scale_factor (2, 2) (2, 2) = (1, 1)"
  by (simp add: scale_factor_def)

lemma example_window:
  "window example_refs 1 0 = [0]" "window example_refs 1 1 = [1]" "window example_refs 1 2 = [2]"
  "window example_refs 3 0 = [0, 1]" "window example_refs 3 1 = [0, 1, 2]"
  "window example_refs 3 2 = [1, 2]"
  by (simp_all add: window_def getRefSeqInfo_eq upto.simps)

lemma upt_two: "[0..<2] = [0, 1]"
  by (simp add: upt_conv_Cons)

lemma example_keypoints:
  "ref_keypoint example_refs 0 0 = 0" "ref_keypoint example_refs 0 (Suc 0) = 1"
  "ref_keypoint example_refs (Suc 0) 0 = 0" "ref_keypoint example_refs (Suc 0) (Suc 0) = 1"
  "ref_keypoint example_refs 2 0 = 0" "ref_keypoint example_refs 2 (Suc 0) = 0"
  "query_keypoint example_query c = 0"
  by (simp_all add: ref_keypoint_def query_keypoint_def np_argmax_def column_def)

lemma example_depths:
  "keypoint_depth example_refs (2, 2) (2, 2) 0 0 = 50"
  "keypoint_depth example_refs (2, 2) (2, 2) 0 (Suc 0) = 50"
  "keypoint_depth example_refs (2, 2) (2, 2) (Suc 0) 0 = 200"
  "keypoint_depth example_refs (2, 2) (2, 2) (Suc 0) (Suc 0) = 200"
  "keypoint_depth example_refs (2, 2) (2, 2) 2 0 = 50"
  "keypoint_depth example_refs (2, 2) (2, 2) 2 (Suc 0) = 50"
  by (simp_all add: keypoint_depth_def example_keypoints example_scale)

lemma example_distances:
  "channel_distance example_refs example_query 0 0 = Num 1"
  "channel_distance example_refs example_query 0 (Suc 0) = Num 0"
  "channel_distance example_refs example_query 2 0 = Num 0"
  "channel_distance example_refs example_query 2 (Suc 0) = Num 0"
  by (simp_all add: channel_distance_def example_keypoints cosine_distance_def np_divide_def
      dot_def linalg_norm_def)

lemma example_valid_channels:
  "valid_channels example_refs example_query (2, 2) (2, 2) 1 98 0 = [0, 1]"
  "valid_channels example_refs example_query (2, 2) (2, 2) 1 98 1 = []"
  "valid_channels example_refs example_query (2, 2) (2, 2) 1 98 2 = [0, 1]"
  "valid_channels example_refs example_query (2, 2) (2, 2) 3 98 0 = [0, 1]"
  "valid_channels example_refs example_query (2, 2) (2, 2) 3 98 1 = [0, 1]"
  "valid_channels example_refs example_query (2, 2) (2, 2) 3 98 2 = [0, 1]"
  by (simp_all add: valid_channels_def example_window upt_two passes_depth_def example_depths)

lemma example_scores:
  "spec_score example_refs example_query (2, 2) (2, 2) 1 98 0 = Num (1 / 2)"
  "spec_score example_refs example_query (2, 2) (2, 2) 1 98 1 = NaN"
  "spec_score example_refs example_query (2, 2) (2, 2) 1 98 2 = Num 0"
  "spec_score example_refs example_query (2, 2) (2, 2) 3 98 0 = Num (1 / 2)"
  "spec_score example_refs example_query (2, 2) (2, 2) 3 98 1 = Num 0"
  "spec_score example_refs example_query (2, 2) (2, 2) 3 98 2 = Num 0"
  by (simp_all add: spec_score_def example_valid_channels best_distance_def example_window
      passes_depth_def example_depths example_distances minimum_over_def np_minimum_def
      np_mean_def np_add_def np_divide_def)



text \<open>
  Where the rows that are compared have a non-zero norm and at least one channel passes,
  no not-a-number occurs: the score is the arithmetic mean of real minima of real cosine
  distances.
\<close>

lemma cosine_distance_Num:
  "linalg_norm d1 \<noteq> 0 \<Longrightarrow> linalg_norm d2 \<noteq> 0 \<Longrightarrow>
   cosine_distance d1 d2 = Num (cosine_real d1 d2)"
  by (simp add: cosine_distance_def np_divide_def cosine_real_def)

lemma fold_minimum_Num: "fold np_minimum (map Num xs) (Num a) = Num (fold min xs a)"
  by (induction xs arbitrary: a) (simp_all add: np_minimum_def)

lemma minimum_over_Num: "xs \<noteq> [] \<Longrightarrow> minimum_over (map Num xs) = Num (Min (set xs))"
proof -
  assume "xs \<noteq> []"
  then obtain x rest where xs: "xs = x # rest" by (cases xs) auto
  have "Min (set (x # rest)) = fold min rest x" by (rule Min.set_eq_fold)
  then show ?thesis
    unfolding xs by (simp add: minimum_over_def fold_minimum_Num)
qed

lemma fold_add_Num: "fold np_add (map Num xs) (Num a) = Num (a + sum_list xs)"
  by (induction xs arbitrary: a) (simp_all add: np_add_def)

lemma np_mean_Num:
  "xs \<noteq> [] \<Longrightarrow> np_mean (map Num xs) = Num (sum_list xs / real (length xs))"
  by (simp add: np_mean_def fold_add_Num np_divide_def)

lemma score_is_real_mean:
  assumes ne: "valid_channels rd q grid full seqLen depThresh r \<noteq> []"
    and ref: "\<forall>c \<in> set (valid_channels rd q grid full seqLen depThresh r).
                \<forall>k \<in> set (window rd seqLen r). passes_depth rd grid full depThresh k c \<longrightarrow>
                  linalg_norm (denseFtRefAll rd ! k ! ref_keypoint rd k c) \<noteq> 0"
    and query: "\<forall>c \<in> set (valid_channels rd q grid full seqLen depThresh r).
                  linalg_norm (q ! query_keypoint q c) \<noteq> 0"
  shows "spec_score rd q grid full seqLen depThresh r
         = Num (sum_list (map (\<lambda>c. Min (set (map
               (\<lambda>k. cosine_real (denseFtRefAll rd ! k ! ref_keypoint rd k c) (q ! query_keypoint q c))
               (filter (\<lambda>k. passes_depth rd grid full depThresh k c) (window rd seqLen r)))))
             (valid_channels rd q grid full seqLen depThresh r))
           / real (length (valid_channels rd q grid full seqLen depThresh r)))"
proof -
  let ?V = "valid_channels rd q grid full seqLen depThresh r"
  let ?F = "\<lambda>c. filter (\<lambda>k. passes_depth rd grid full depThresh k c) (window rd seqLen r)"
  let ?d = "\<lambda>c k. cosine_real (denseFtRefAll rd ! k ! ref_keypoint rd k c) (q ! query_keypoint q c)"
  have best: "best_distance rd q grid full seqLen depThresh r c = Num (Min (set (map (?d c) (?F c))))"
    if c: "c \<in> set ?V" for c
  proof -
    have e: "map (\<lambda>k. channel_distance rd q k c) (?F c) = map Num (map (?d c) (?F c))"
      using ref query c by (auto simp: channel_distance_def cosine_distance_Num)
    have n: "map (?d c) (?F c) \<noteq> []"
      using c by (auto simp: valid_channels_def list_ex_iff filter_empty_conv)
    show ?thesis
      unfolding best_distance_def e by (rule minimum_over_Num[OF n])
  qed
  have e: "map (best_distance rd q grid full seqLen depThresh r) ?V
          = map Num (map (\<lambda>c. Min (set (map (?d c) (?F c)))) ?V)"
    using best by simp
  have n: "map (\<lambda>c. Min (set (map (?d c) (?F c)))) ?V \<noteq> []" using ne by simp
  show ?thesis
    unfolding spec_score_def e np_mean_Num[OF n] by simp
qed

section \<open>Minimizing positions\<close>

lemma is_argmin_iff:
  "is_argmin xs p \<longleftrightarrow>
     p < length xs \<and>
     (if \<exists>x \<in> set xs. is_nan x
      then is_nan (xs ! p) \<and> (\<forall>j < p. \<not> is_nan (xs ! j))
      else (\<forall>j < length xs. np_less_equal (xs ! p) (xs ! j)) \<and>
           (\<forall>j < p. np_less (xs ! p) (xs ! j)))"
  by (auto simp: is_argmin_def list_ex_iff list_all_iff)

lemma np_less_cases:
  "\<not> is_nan a \<Longrightarrow> \<not> is_nan b \<Longrightarrow> np_less a b \<or> np_less_equal b a"
  by (cases a; cases b) (auto simp: is_nan_def np_less_def np_less_equal_def)

lemma np_le_trans:
  "np_less a b \<Longrightarrow> np_less_equal b c \<Longrightarrow> np_less a c"
  "np_less a b \<Longrightarrow> np_less_equal b c \<Longrightarrow> np_less_equal a c"
  "np_less a b \<Longrightarrow> np_less b c \<Longrightarrow> np_less a c"
  by (cases a; cases b; cases c; auto simp: np_less_def np_less_equal_def)+

lemma np_le_refl: "\<not> is_nan a \<Longrightarrow> np_less_equal a a"
  by (cases a) (auto simp: is_nan_def np_less_equal_def)

lemma argmin_from_correct:
  assumes "is_argmin pre best" and "bv = pre ! best" and "i = length pre"
  shows "is_argmin (pre @ xs) (argmin_from xs i best bv)"
  using assms
proof (induction xs arbitrary: pre best bv i)
  case Nil
  then show ?case by simp
next
  case (Cons x xs)
  from Cons.prems(1) have best: "best < length pre" by (simp add: is_argmin_iff)
  show ?case
  proof (cases "is_nan bv")
    case True
    then have "is_argmin (pre @ x # xs) best"
      using Cons.prems best
      by (auto simp: is_argmin_iff nth_append split: if_splits)
    then show ?thesis using True by simp
  next
    case bv: False
    then have nonan: "\<forall>y \<in> set pre. \<not> is_nan y"
      using Cons.prems(1,2) by (auto simp: is_argmin_iff split: if_splits)
    have le: "\<forall>j < length pre. np_less_equal bv (pre ! j)"
      and lt: "\<forall>j < best. np_less bv (pre ! j)"
      using Cons.prems(1,2) nonan by (auto simp: is_argmin_iff split: if_splits)
    show ?thesis
    proof (cases "is_nan x \<or> np_less x bv")
      case True
      have "is_argmin (pre @ [x]) (length pre)"
      proof (cases "is_nan x")
        case True
        then show ?thesis using nonan
          by (auto simp: is_argmin_iff nth_append)
      next
        case False
        with True have xl: "np_less x bv" by simp
        have a: "\<forall>j < length pre. np_less x (pre ! j)"
          using xl le np_le_trans(1) by blast
        have b: "\<forall>j < length (pre @ [x]). np_less_equal x ((pre @ [x]) ! j)"
        proof (intro allI impI)
          fix j assume "j < length (pre @ [x])"
          then consider "j < length pre" | "j = length pre" by fastforce
          then show "np_less_equal x ((pre @ [x]) ! j)"
          proof cases
            case 1
            then show ?thesis using xl le np_le_trans(2) by (simp add: nth_append)
          next
            case 2
            then show ?thesis using False by (simp add: np_le_refl)
          qed
        qed
        show ?thesis using False nonan a b
          by (auto simp: is_argmin_iff nth_append)
      qed
      from Cons.IH[OF this, of x "Suc i"] Cons.prems(3) True bv
      show ?thesis by simp
    next
      case False
      then have xn: "\<not> is_nan x" and xl: "np_less_equal bv x"
        using np_less_cases[of x bv] bv by auto
      have "is_argmin (pre @ [x]) best"
        using best nonan xn le lt xl Cons.prems(2)
        by (auto simp: is_argmin_iff nth_append less_Suc_eq)
      from Cons.IH[OF this, of bv "Suc i"] Cons.prems(2,3) best False bv
      show ?thesis by (simp add: nth_append)
    qed
  qed
qed

lemma np_argmin_correct:
  assumes "xs \<noteq> []"
  shows "\<exists>p. np_argmin xs = Inr p \<and> is_argmin xs p"
proof -
  from assms obtain x rest where xs: "xs = x # rest" by (cases xs) auto
  have "is_argmin [x] 0"
    by (cases x) (auto simp: is_argmin_iff is_nan_def np_less_equal_def)
  from argmin_from_correct[OF this, of x 1 rest]
  show ?thesis by (simp add: xs np_argmin_def)
qed

section \<open>Raising the depth threshold (C7)\<close>

lemma candidateMinDists_cases:
  assumes wf: "wf_dataset rd grid full C" and q: "wf_query q C"
    and r: "0 \<le> r" "r < int (length (denseFtRefAll rd))" and L: "1 \<le> seqLen"
  shows "candidateMinDists rd q (map (query_keypoint q) [0..<C]) grid (scale_factor grid full)
           (int (length (denseFtRefAll rd))) seqLen depThresh r
         = Inr (map (\<lambda>c. if list_ex (\<lambda>k. passes_depth rd grid full depThresh k c) (window rd seqLen r)
                         then best_distance rd q grid full seqLen depThresh r c else Num 100) [0..<C])"
proof -
  have wne: "window rd seqLen r \<noteq> []" using window_facts(1)[OF r L] by (simp add: window_def)
  show ?thesis unfolding candidateMinDists_eq[OF wf q r L] collapsed_cells[OF wne] ..
qed

lemma sentinel_channels_eq:
  assumes wf: "wf_dataset rd grid full C" and q: "wf_query q C"
    and r: "0 \<le> r" "r < int (length (denseFtRefAll rd))" and L: "1 \<le> seqLen"
  shows "sentinel_channels rd q grid (scale_factor grid full)
           (int (length (denseFtRefAll rd))) seqLen depThresh r
         = Inr (filter (\<lambda>c. \<not> list_ex (\<lambda>k. passes_depth rd grid full depThresh k c)
                                 (window rd seqLen r)) [0..<C])"
proof -
  let ?P = "\<lambda>c. list_ex (\<lambda>k. passes_depth rd grid full depThresh k c) (window rd seqLen r)"
  let ?v = "\<lambda>c. if ?P c then best_distance rd q grid full seqLen depThresh r c else Num 100"
  have am: "argmax_axis0 q = Inr (map (query_keypoint q) [0..<C])"
    using argmax_axis0_eq[of q C] q by (simp add: wf_query_def query_keypoint_def)
  have f: "filter (\<lambda>c. map ?v [0..<C] ! c = Num 100) [0..<length (map ?v [0..<C])]
             = filter (\<lambda>c. \<not> ?P c) [0..<C]"
    by (rule filter_cong) (use best_distance_in_range cosine_not_sentinel in auto)
  show ?thesis
    unfolding sentinel_channels_def am ebind_Inr candidateMinDists_cases[OF wf q r L] f ..
qed

lemma passes_depth_mono:
  "t1 \<le> t2 \<Longrightarrow> passes_depth rd grid full t1 k c \<Longrightarrow> passes_depth rd grid full t2 k c"
  by (auto simp: passes_depth_def)

lemma depth_threshold_mono:
  assumes t: "t1 \<le> t2"
    and wf: "wf_dataset rd grid full C" and q: "wf_query q C"
    and r: "0 \<le> r" "r < int (length (denseFtRefAll rd))" and L: "1 \<le> seqLen"
  shows "set (filterKPs_depth d minDepth t1) \<subseteq> set (filterKPs_depth d minDepth t2)
       \<and> (\<exists>s1 s2. sentinel_channels rd q grid (scale_factor grid full)
                      (int (length (denseFtRefAll rd))) seqLen t1 r = Inr s1
                \<and> sentinel_channels rd q grid (scale_factor grid full)
                      (int (length (denseFtRefAll rd))) seqLen t2 r = Inr s2
                \<and> set s2 \<subseteq> set s1)"
proof -
  have a: "set (filterKPs_depth d minDepth t1) \<subseteq> set (filterKPs_depth d minDepth t2)"
    using t by (auto simp: filterKPs_depth_def)
  have b: "set (filter (\<lambda>c. \<not> list_ex (\<lambda>k. passes_depth rd grid full t2 k c) (window rd seqLen r)) [0..<C])
         \<subseteq> set (filter (\<lambda>c. \<not> list_ex (\<lambda>k. passes_depth rd grid full t1 k c) (window rd seqLen r)) [0..<C])"
    using passes_depth_mono[OF t, of rd grid full] by (auto simp: list_ex_iff)
  show ?thesis
    using a b sentinel_channels_eq[OF wf q r L, of t1] sentinel_channels_eq[OF wf q r L, of t2]
    by simp
qed

text \<open>
  C7. For thresholds \<open>t1 \<le> t2\<close>, the positions the Depth Filter returns with \<open>(minDepth, t1)\<close>
  are among those it returns with \<open>(minDepth, t2)\<close>; and for a fixed candidate and window
  the channels whose collapsed cell keeps the sentinel under \<open>t2\<close> are among those under
  the stricter \<open>t1\<close>.
\<close>

theorem depth_threshold_monotone:
  assumes t: "t1 \<le> t2"
    and wf: "wf_dataset rd grid full C" and q: "wf_query q C"
    and r: "0 \<le> r" "r < int (length (denseFtRefAll rd))" and L: "1 \<le> seqLen"
  shows "set (filterKPs_depth d minDepth t1) \<subseteq> set (filterKPs_depth d minDepth t2)
       \<and> (\<exists>s1 s2. sentinel_channels rd q grid (scale_factor grid full)
                      (int (length (denseFtRefAll rd))) seqLen t1 r = Inr s1
                \<and> sentinel_channels rd q grid (scale_factor grid full)
                      (int (length (denseFtRefAll rd))) seqLen t2 r = Inr s2
                \<and> set s2 \<subseteq> set s1)"
  using depth_threshold_mono[OF assms] .

theorem depth_threshold_monotone_witness:
  "set (filterKPs_depth [50, 200, 30] 0 40) \<subseteq> set (filterKPs_depth [50, 200, 30] 0 98)
   \<and> sentinel_channels example_refs example_query (2, 2) (1, 1) 3 1 40 0 = Inr [0, 1]
   \<and> sentinel_channels example_refs example_query (2, 2) (1, 1) 3 1 98 0 = Inr []"
proof -
  have t: "(40::real) \<le> 98" by simp
  have r: "(0::int) \<le> 0" "(0::int) < int (length (denseFtRefAll example_refs))" by simp_all
  have L: "(1::int) \<le> 1" by simp
  note e = sentinel_channels_eq[OF example_wf example_query_wf r L]
  have s1: "sentinel_channels example_refs example_query (2, 2) (1, 1) 3 1 40 0 = Inr [0, 1]"
    using e[of 40]
    by (simp add: example_scale example_window upt_two passes_depth_def example_depths)
  have s2: "sentinel_channels example_refs example_query (2, 2) (1, 1) 3 1 98 0 = Inr []"
    using e[of 98]
    by (simp add: example_scale example_window upt_two passes_depth_def example_depths)
  show ?thesis
    using depth_threshold_monotone[OF t example_wf example_query_wf r L, of "[50, 200, 30]" 0] s1 s2
    by (simp add: example_scale)
qed

section \<open>A candidate without a valid channel (C8)\<close>






section \<open>Global Retrieval (C6)\<close>








section \<open>The best match and the output tables (C5)\<close>

lemma traverse_Inr_iff:
  "traverse f xs = Inr ys \<longleftrightarrow> length ys = length xs \<and> (\<forall>i < length xs. f (xs ! i) = Inr (ys ! i))"
proof (induction xs arbitrary: ys)
  case Nil
  then show ?case by auto
next
  case (Cons x xs)
  show ?case
  proof (cases ys)
    case Nil
    then show ?thesis by (auto split: sum.splits)
  next
    case (Cons y ys')
    then show ?thesis using Cons.IH[of ys']
      by (auto split: sum.splits simp: less_Suc_eq_0_disj)
  qed
qed

lemma traverse_all_Inr:
  "\<forall>x \<in> set xs. \<not> isl (f x) \<Longrightarrow> traverse f xs = Inr (map (\<lambda>x. projr (f x)) xs)"
  by (rule traverse_map) (metis sum.collapse(2))

lemma best_match_facts:
  assumes tm: "topMatches nb \<noteq> []"
      "list_all (\<lambda>row. length row = numQueryImgs nb) (topMatches nb)"
    and fs: "length finalScores = numQueryImgs nb"
      "list_all (\<lambda>s. length s = length (topMatches nb)) finalScores"
    and Q: "0 < numQueryImgs nb"
  shows "\<exists>best. bestMatch nb finalScores = Inr best
           \<and> length best = numQueryImgs nb
           \<and> list_all (\<lambda>q. \<exists>p. np_argmin (finalScores ! q) = Inr p
                             \<and> is_argmin (finalScores ! q) p
                             \<and> best ! q = topMatches nb ! p ! q) [0..<numQueryImgs nb]
           \<and> matchesOut best = map (\<lambda>q. (q, best ! q)) [0..<numQueryImgs nb]
           \<and> matchesBaseline nb best
                = Inr (map (\<lambda>q. (q, topMatches nb ! 0 ! q)) [0..<numQueryImgs nb])"
proof -
  let ?Q = "numQueryImgs nb" and ?N = "length (topMatches nb)"
  define pos where "pos = map (\<lambda>s. projr (np_argmin s)) finalScores"
  define best where "best = map (\<lambda>q. topMatches nb ! (pos ! q) ! q) [0..<?Q]"
  have N: "0 < ?N" using tm(1) by simp
  have ne: "finalScores \<noteq> []" using fs(1) Q by auto
  have am: "np_argmin s = Inr (projr (np_argmin s)) \<and> is_argmin s (projr (np_argmin s))"
    if "s \<in> set finalScores" for s
  proof -
    have "s \<noteq> []" using that fs(2) N by (auto simp: list_all_iff)
    from np_argmin_correct[OF this] show ?thesis by auto
  qed
  have t1: "traverse np_argmin finalScores = Inr pos"
    unfolding pos_def by (rule traverse_map) (use am in blast)
  have lenpos: "length pos = ?Q" using fs(1) by (simp add: pos_def)
  have posq: "np_argmin (finalScores ! q) = Inr (pos ! q) \<and> is_argmin (finalScores ! q) (pos ! q)
              \<and> pos ! q < ?N" if "q < ?Q" for q
  proof -
    have m: "finalScores ! q \<in> set finalScores" using that fs(1) by simp
    then have l: "length (finalScores ! q) = ?N" using fs(2) by (simp add: list_all_iff)
    have pq: "pos ! q = projr (np_argmin (finalScores ! q))" using that fs(1) by (simp add: pos_def)
    have "is_argmin (finalScores ! q) (pos ! q)" using am[OF m] pq by simp
    then have "pos ! q < ?N" using l by (simp add: is_argmin_iff)
    then show ?thesis using am[OF m] pq by simp
  qed
  have row: "length (topMatches nb ! p) = ?Q" if "p < ?N" for p
    using tm(2) that by (simp add: list_all_length)
  have look: "(case pq of (p, q) \<Rightarrow> ebind (np_get (topMatches nb) (int p)) (\<lambda>row. np_get row (int q)))
               = Inr (topMatches nb ! fst pq ! snd pq)"
    if "pq \<in> set (zip pos [0..<?Q])" for pq
  proof -
    from that obtain q where q: "q < ?Q" "pq = (pos ! q, q)"
      using lenpos by (auto simp: in_set_conv_nth)
    have p: "pos ! q < ?N" using posq[OF q(1)] by simp
    show ?thesis using q p row[OF p] by (simp add: np_get_nat)
  qed
  have "traverse (\<lambda>(p, q). ebind (np_get (topMatches nb) (int p)) (\<lambda>row. np_get row (int q)))
          (zip pos [0..<?Q])
        = Inr (map (\<lambda>pq. topMatches nb ! fst pq ! snd pq) (zip pos [0..<?Q]))"
    by (rule traverse_map) (rule look)
  also have "map (\<lambda>pq. topMatches nb ! fst pq ! snd pq) (zip pos [0..<?Q]) = best"
    unfolding best_def by (rule nth_equalityI) (simp_all add: lenpos)
  finally have bm: "bestMatch nb finalScores = Inr best"
    using ne t1 lenpos by (simp add: bestMatch_def)
  have len: "length best = ?Q" by (simp add: best_def)
  have sel: "list_all (\<lambda>q. \<exists>p. np_argmin (finalScores ! q) = Inr p
                             \<and> is_argmin (finalScores ! q) p
                             \<and> best ! q = topMatches nb ! p ! q) [0..<?Q]"
    unfolding list_all_iff
  proof
    fix q assume "q \<in> set [0..<?Q]"
    then have q: "q < ?Q" by simp
    then have "best ! q = topMatches nb ! (pos ! q) ! q" by (simp add: best_def)
    then show "\<exists>p. np_argmin (finalScores ! q) = Inr p \<and> is_argmin (finalScores ! q) p
                 \<and> best ! q = topMatches nb ! p ! q"
      using posq[OF q] by blast
  qed
  have out: "matchesOut best = map (\<lambda>q. (q, best ! q)) [0..<?Q]"
    unfolding matchesOut_def by (rule nth_equalityI) (simp_all add: len)
  have "np_get (topMatches nb) 0 = Inr (topMatches nb ! 0)"
    using np_get_nat[of 0 "topMatches nb"] N by simp
  moreover have "zip [0..<?Q] (topMatches nb ! 0) = map (\<lambda>q. (q, topMatches nb ! 0 ! q)) [0..<?Q]"
    by (rule nth_equalityI) (simp_all add: row[OF N])
  ultimately have base: "matchesBaseline nb best
                = Inr (map (\<lambda>q. (q, topMatches nb ! 0 ! q)) [0..<?Q])"
    by (simp add: matchesBaseline_def len row[OF N])
  show ?thesis using bm len sel out base by blast
qed

text \<open>
  C5. For every query index \<open>q\<close>, the re-ranked match of \<open>q\<close> is the entry of the candidate
  list of \<open>q\<close> at the position that \<open>np.argmin\<close> selects in the score vector of \<open>q\<close>: the
  first position of the minimum score when no score is not-a-number, and the position of
  the first not-a-number otherwise. The two tables pair every query index with this match
  and with the candidate at position 0.
\<close>

theorem best_match:
  assumes tm: "topMatches nb \<noteq> []"
      "list_all (\<lambda>row. length row = numQueryImgs nb) (topMatches nb)"
    and fs: "length finalScores = numQueryImgs nb"
      "list_all (\<lambda>s. length s = length (topMatches nb)) finalScores"
    and Q: "0 < numQueryImgs nb"
  shows "\<exists>best. bestMatch nb finalScores = Inr best
           \<and> length best = numQueryImgs nb
           \<and> list_all (\<lambda>q. \<exists>p. np_argmin (finalScores ! q) = Inr p
                             \<and> is_argmin (finalScores ! q) p
                             \<and> best ! q = topMatches nb ! p ! q) [0..<numQueryImgs nb]
           \<and> matchesOut best = map (\<lambda>q. (q, best ! q)) [0..<numQueryImgs nb]
           \<and> matchesBaseline nb best
                = Inr (map (\<lambda>q. (q, topMatches nb ! 0 ! q)) [0..<numQueryImgs nb])"
  using best_match_facts[OF assms] .

lemma example_reshape: "reshape_rows example_query 2 = Inr example_query"
  by (simp add: reshape_rows_def)

lemma example_columns:
  "np_column [[0, 2], [1, 0], [2, 1]] 0 = Inr [0, 1, 2::nat]"
  "np_column [[0, 2], [1, 0], [2, 1]] (Suc 0) = Inr [2, 0, 1::nat]"
  by (simp_all add: np_column_def np_get_def)

lemma upt_two_Suc: "[0..<2] = [0, Suc 0]"
  by (simp add: upt_conv_Cons)

lemma example_process:
  "processQueryIndex example_notebook 0 = Inr [Num (1 / 2), NaN, Num 0]"
  "processQueryIndex example_notebook (Suc 0) = Inr [Num 0, Num (1 / 2), NaN]"
proof -
  have c: "\<forall>r \<in> set [0, 1, 2::int]. 0 \<le> r \<and> r < int (length (denseFtRefAll example_refs))"
    "\<forall>r \<in> set [2, 0, 1::int]. 0 \<le> r \<and> r < int (length (denseFtRefAll example_refs))"
    by simp_all
  have L: "(1::int) \<le> 1" by simp
  show "processQueryIndex example_notebook 0 = Inr [Num (1 / 2), NaN, Num 0]"
    using matchData_eq[OF example_wf example_query_wf c(1) L, of 2 98]
    by (simp add: processQueryIndex_def example_columns loadC5Tensor_def example_reshape
        example_scale example_scores del: One_nat_def)
  show "processQueryIndex example_notebook (Suc 0) = Inr [Num 0, Num (1 / 2), NaN]"
    using matchData_eq[OF example_wf example_query_wf c(2) L, of 2 98]
    by (simp add: processQueryIndex_def example_columns loadC5Tensor_def example_reshape
        example_scale example_scores del: One_nat_def)
qed

lemma example_sequential:
  "finalScores_sequential example_notebook
     = Inr [[Num (1 / 2), NaN, Num 0], [Num 0, Num (1 / 2), NaN]]"
  by (simp add: finalScores_sequential_def upt_two_Suc example_process del: One_nat_def)

lemma example_argmin:
  "np_argmin [Num (1 / 2), NaN, Num 0] = Inr 1" "np_argmin [Num 0, Num (1 / 2), NaN] = Inr 2"
  "np_argmin [Num 1, Num (1 / 4), Num (1 / 4)] = Inr 1"
  by (simp_all add: np_argmin_def is_nan_def np_less_def)

lemma example_bestMatch:
  "bestMatch example_notebook [[Num (1 / 2), NaN, Num 0], [Num 0, Num (1 / 2), NaN]] = Inr [1, 1]"
  by (simp add: bestMatch_def example_argmin upt_two np_get_def del: One_nat_def)

theorem best_match_witness:
  "bestMatch example_notebook [[Num (1 / 2), NaN, Num 0], [Num 1, Num (1 / 4), Num (1 / 4)]]
     = Inr [1, 0]
   \<and> matchesOut [1, 0] = [(0, 1), (1, 0)]
   \<and> matchesBaseline example_notebook [1, 0] = Inr [(0, 0), (1, 2)]"
proof -
  have a: "topMatches example_notebook \<noteq> []" by simp
  have b: "list_all (\<lambda>row. length row = numQueryImgs example_notebook) (topMatches example_notebook)"
    by simp
  have c: "length [[Num (1 / 2), NaN, Num 0], [Num 1, Num (1 / 4), Num (1 / 4)]]
             = numQueryImgs example_notebook" by simp
  have d: "list_all (\<lambda>s. length s = length (topMatches example_notebook))
             [[Num (1 / 2), NaN, Num 0], [Num 1, Num (1 / 4), Num (1 / 4)]]" by simp
  have e: "0 < numQueryImgs example_notebook" by simp
  have f: "bestMatch example_notebook [[Num (1 / 2), NaN, Num 0], [Num 1, Num (1 / 4), Num (1 / 4)]]
     = Inr [1, 0]"
    by (simp add: bestMatch_def example_argmin upt_two np_get_def del: One_nat_def)
  show ?thesis
    using best_match[OF a b c d e] unfolding f
    by (simp add: upt_two matchesOut_def matchesBaseline_def np_get_def del: One_nat_def)
qed

text \<open>
  A candidate whose score is not-a-number is selected whatever the other scores are: in
  the example both queries are matched to the frame that lies beyond the depth threshold,
  although another candidate has the score zero.
\<close>

theorem best_match_counterexample:
  "finalScores_sequential example_notebook
     = Inr [[Num (1 / 2), NaN, Num 0], [Num 0, Num (1 / 2), NaN]]
   \<and> bestMatch example_notebook [[Num (1 / 2), NaN, Num 0], [Num 0, Num (1 / 2), NaN]] = Inr [1, 1]
   \<and> topMatches example_notebook ! 1 ! 0 = 1
   \<and> \<not> np_less_equal ([Num (1 / 2), NaN, Num 0] ! 1) ([Num (1 / 2), NaN, Num 0] ! 2)"
  using example_sequential example_bestMatch by (simp add: np_less_equal_def del: One_nat_def)

section \<open>The sequential and the parallel driver (C9)\<close>

lemma fold_slots_length:
  "length (fold (\<lambda>i value. value[i := Some (outcomes ! i)]) cs slots) = length slots"
  by (induction cs arbitrary: slots) simp_all

lemma fold_slots_nth:
  "i < length slots \<Longrightarrow>
   fold (\<lambda>i value. value[i := Some (outcomes ! i)]) cs slots ! i
     = (if i \<in> set cs then Some (outcomes ! i) else slots ! i)"
proof (induction cs arbitrary: slots)
  case Nil
  then show ?case by simp
next
  case (Cons c cs)
  then show ?case by (auto simp: nth_list_update)
qed

lemma pool_map_success:
  assumes perm: "mset completed = mset [0..<length xs]"
    and ok: "\<forall>x \<in> set xs. \<not> isl (f x)"
  shows "pool_map completed f xs = Inr (map (\<lambda>x. projr (f x)) xs)"
proof -
  let ?o = "map f xs"
  let ?slots = "fold (\<lambda>i value. value[i := Some (?o ! i)]) completed (replicate (length xs) None)"
  have sc: "set completed = {0..<length xs}" using mset_eq_setD[OF perm] by simp
  have nofail: "filter isl (map (\<lambda>i. ?o ! i) completed) = []"
    using ok sc by (auto simp: filter_empty_conv)
  have slots: "?slots = map (\<lambda>x. Some (f x)) xs"
    by (rule nth_equalityI) (simp_all add: fold_slots_length fold_slots_nth sc)
  have "traverse (\<lambda>slot. case slot of Some (Inr y) \<Rightarrow> Inr y | _ \<Rightarrow> Inl ValueError)
          (map (\<lambda>x. Some (f x)) xs)
        = Inr (map (\<lambda>s. projr (the s)) (map (\<lambda>x. Some (f x)) xs))"
  proof (rule traverse_map)
    fix s assume "s \<in> set (map (\<lambda>x. Some (f x)) xs)"
    then obtain x where x: "x \<in> set xs" "s = Some (f x)" by auto
    then obtain y where "f x = Inr y" using ok by (cases "f x") auto
    then show "(case s of Some (Inr y) \<Rightarrow> Inr y | _ \<Rightarrow> Inl ValueError) = Inr (projr (the s))"
      using x by simp
  qed
  then show ?thesis
    unfolding pool_map_def Let_def nofail slots by (simp add: comp_def)
qed

lemma pool_map_failure:
  assumes perm: "mset completed = mset [0..<length xs]"
    and bad: "\<exists>x \<in> set xs. isl (f x)"
  shows "isl (pool_map completed f xs)"
proof -
  let ?o = "map f xs"
  have sc: "set completed = {0..<length xs}" using mset_eq_setD[OF perm] by simp
  from bad obtain i where i: "i < length xs" "isl (f (xs ! i))" by (auto simp: in_set_conv_nth)
  then have "?o ! i \<in> set (filter isl (map (\<lambda>i. ?o ! i) completed))"
    using sc by auto
  then obtain e rest where "filter isl (map (\<lambda>i. ?o ! i) completed) = e # rest"
    by (cases "filter isl (map (\<lambda>i. ?o ! i) completed)") auto
  then show ?thesis unfolding pool_map_def Let_def by simp
qed

lemma batch_starts_nonempty: "0 < n \<Longrightarrow> 0 < step \<Longrightarrow> batch_starts n step \<noteq> []"
proof -
  assume "0 < n" "0 < step"
  then have "step \<le> n + step - 1" by simp
  then have "0 < (n + step - 1) div step" using \<open>0 < step\<close> by (simp add: div_greater_zero_iff)
  then show ?thesis by (simp add: batch_starts_def)
qed

lemma concat_batches_prefix:
  assumes step: "0 < step"
  shows "k * step < n + step \<Longrightarrow>
    concat (map (\<lambda>i. [i..<min (i + step) n]) (map (\<lambda>b. b * step) [0..<k])) = [0..<min (k * step) n]"
proof (induction k)
  case 0
  then show ?case by simp
next
  case (Suc k)
  then have k: "k * step < n" by simp
  then have IH: "concat (map (\<lambda>i. [i..<min (i + step) n]) (map (\<lambda>b. b * step) [0..<k]))
                   = [0..<k * step]" using Suc.IH by simp
  have "[0..<k * step] @ [k * step..<min (k * step + step) n] = [0..<min (k * step + step) n]"
    using k by (metis le_add1 less_or_eq_imp_le min.boundedI upt_add_eq_append zero_le le_iff_add)
  then show ?case using IH by (simp add: add.commute)
qed

lemma concat_batches:
  assumes step: "0 < step"
  shows "concat (map (\<lambda>i. [i..<min (i + step) n]) (batch_starts n step)) = [0..<n]"
proof -
  let ?m = "(n + step - 1) div step"
  have "?m * step \<le> n + step - 1" by simp
  then have a: "?m * step < n + step" using step by linarith
  have "n + step - 1 < ?m * step + step"
    using step by (metis add.commute dividend_less_times_div mult.commute)
  then have b: "n \<le> ?m * step" by linarith
  show ?thesis
    using concat_batches_prefix[OF step a] b by (simp add: batch_starts_def)
qed

lemma drivers_agree:
  fixes f :: "nat \<Rightarrow> error + 'b"
  assumes Q: "0 < n" and step: "0 < step"
    and perm: "\<forall>i \<in> set (batch_starts n step). mset (completed i) = mset [0..<min (i + step) n - i]"
  shows "(traverse f [0..<n] = Inr ss)
           = (ebind (traverse (\<lambda>i. pool_map (completed i) f [i..<min (i + step) n])
                       (batch_starts n step)) np_concatenate = Inr ss)"
proof (cases "\<forall>x \<in> set [0..<n]. \<not> isl (f x)")
  case True
  have seq: "traverse f [0..<n] = Inr (map (\<lambda>x. projr (f x)) [0..<n])"
    using True by (rule traverse_all_Inr)
  have "traverse (\<lambda>i. pool_map (completed i) f [i..<min (i + step) n]) (batch_starts n step)
          = Inr (map (\<lambda>i. map (\<lambda>x. projr (f x)) [i..<min (i + step) n]) (batch_starts n step))"
  proof (rule traverse_map)
    fix i assume "i \<in> set (batch_starts n step)"
    show "pool_map (completed i) f [i..<min (i + step) n] = Inr (map (\<lambda>x. projr (f x)) [i..<min (i + step) n])"
      using perm True \<open>i \<in> set (batch_starts n step)\<close> by (intro pool_map_success) auto
  qed
  moreover have "concat (map (\<lambda>i. map (\<lambda>x. projr (f x)) [i..<min (i + step) n]) (batch_starts n step))
                   = map (\<lambda>x. projr (f x)) [0..<n]"
  proof -
    have "concat (map (\<lambda>i. map (\<lambda>x. projr (f x)) [i..<min (i + step) n]) (batch_starts n step))
            = map (\<lambda>x. projr (f x)) (concat (map (\<lambda>i. [i..<min (i + step) n]) (batch_starts n step)))"
      by (simp add: map_concat comp_def)
    then show ?thesis by (simp only: concat_batches[OF step])
  qed
  ultimately have par: "ebind (traverse (\<lambda>i. pool_map (completed i) f [i..<min (i + step) n])
                       (batch_starts n step)) np_concatenate = Inr (map (\<lambda>x. projr (f x)) [0..<n])"
    using batch_starts_nonempty[OF Q step] by (simp add: np_concatenate_def)
  show ?thesis unfolding seq par ..
next
  case False
  then obtain x where x: "x < n" "isl (f x)" by auto
  have seq: "traverse f [0..<n] \<noteq> Inr ss"
    using x by (auto simp: traverse_Inr_iff)
  have "x \<in> set (concat (map (\<lambda>i. [i..<min (i + step) n]) (batch_starts n step)))"
    using x(1) concat_batches[OF step, of n] by simp
  then obtain i where i: "i \<in> set (batch_starts n step)" "x \<in> set [i..<min (i + step) n]"
    by auto
  have "isl (pool_map (completed i) f [i..<min (i + step) n])"
    using perm i x(2) by (intro pool_map_failure) auto
  then have "\<not> (\<exists>ys. traverse (\<lambda>i. pool_map (completed i) f [i..<min (i + step) n])
                       (batch_starts n step) = Inr ys)"
    using i(1) by (auto simp: traverse_Inr_iff in_set_conv_nth)
  then have par: "ebind (traverse (\<lambda>i. pool_map (completed i) f [i..<min (i + step) n])
                       (batch_starts n step)) np_concatenate \<noteq> Inr ss"
    by (cases "traverse (\<lambda>i. pool_map (completed i) f [i..<min (i + step) n]) (batch_starts n step)")
       auto
  show ?thesis using seq par by simp
qed

lemma drivers_equal:
  assumes "0 < numQueryImgs nb" and "completion_orders completed (numQueryImgs nb)"
  shows "(finalScores_sequential nb = Inr ss \<longleftrightarrow> finalScores_parallel completed nb = Inr ss)
       \<and> (finalScores_sequential nb = Inr ss \<longrightarrow>
            length ss = numQueryImgs nb
            \<and> (\<forall>q < numQueryImgs nb. processQueryIndex nb q = Inr (ss ! q)))"
proof -
  have step: "0 < numT" by (simp add: numT_def)
  have perm: "\<forall>i \<in> set (batch_starts (numQueryImgs nb) numT).
                mset (completed i) = mset [0..<min (i + numT) (numQueryImgs nb) - i]"
    using assms(2) by (simp add: completion_orders_def list_all_iff)
  have a: "(finalScores_sequential nb = Inr ss) = (finalScores_parallel completed nb = Inr ss)"
    unfolding finalScores_sequential_def finalScores_parallel_def
    by (rule drivers_agree[OF assms(1) step perm])
  have b: "length ss = numQueryImgs nb
            \<and> (\<forall>q < numQueryImgs nb. processQueryIndex nb q = Inr (ss ! q))"
    if "finalScores_sequential nb = Inr ss"
    using that unfolding finalScores_sequential_def traverse_Inr_iff by simp
  show ?thesis using a b by blast
qed

text \<open>
  C9. For a data set with at least one query image, and whatever the order in which the
  tasks of each batch complete, the parallel driver produces a list of scores exactly when
  the sequential driver does, and the same one; its entry at position \<open>q\<close> is the result of
  \<open>processQueryIndex\<close> for the query \<open>q\<close>.
\<close>

theorem drivers_produce_same_scores:
  assumes "0 < numQueryImgs nb" and "completion_orders completed (numQueryImgs nb)"
  shows "(finalScores_sequential nb = Inr ss \<longleftrightarrow> finalScores_parallel completed nb = Inr ss)
       \<and> (finalScores_sequential nb = Inr ss \<longrightarrow>
            length ss = numQueryImgs nb
            \<and> (\<forall>q < numQueryImgs nb. processQueryIndex nb q = Inr (ss ! q)))"
  using drivers_equal[OF assms] .

theorem drivers_produce_same_scores_witness:
  "finalScores_sequential example_notebook
     = Inr [[Num (1 / 2), NaN, Num 0], [Num 0, Num (1 / 2), NaN]]
   \<and> finalScores_parallel (\<lambda>i. [1, 0]) example_notebook
     = Inr [[Num (1 / 2), NaN, Num 0], [Num 0, Num (1 / 2), NaN]]"
proof -
  have Q: "0 < numQueryImgs example_notebook" by simp
  have c: "completion_orders (\<lambda>i. [1, 0]) (numQueryImgs example_notebook)"
    by (simp add: completion_orders_def batch_starts_def numT_def upt_conv_Cons add_mset_commute
        del: mset_upt)
  show ?thesis
    using drivers_produce_same_scores[OF Q c,
        of "[[Num (1 / 2), NaN, Num 0], [Num 0, Num (1 / 2), NaN]]"] example_sequential
    by (simp del: One_nat_def)
qed

text \<open>
  Without a query image the sequential driver produces the empty list and the parallel
  driver raises: \<open>np.concatenate\<close> is called on an empty list of batches.
\<close>

theorem drivers_counterexample:
  "finalScores_sequential (example_notebook\<lparr>numQueryImgs := 0\<rparr>) = Inr []
   \<and> finalScores_parallel (\<lambda>i. []) (example_notebook\<lparr>numQueryImgs := 0\<rparr>) = Inl ValueError"
  by (simp add: finalScores_sequential_def finalScores_parallel_def batch_starts_def numT_def
      np_concatenate_def)

section \<open>The reference data is not changed (C10)\<close>

lemma keepsI:
  assumes "\<And>h. n \<le> length h \<Longrightarrow> length h \<le> length (snd (m h))"
    and "\<And>h. n \<le> length h \<Longrightarrow> take n (snd (m h)) = take n h"
    and "\<And>h x. n \<le> length h \<Longrightarrow> fst (m h) = Inr x \<Longrightarrow> Q x"
  shows "keeps n m Q"
  unfolding keeps_def using assms by (auto split: sum.splits)

lemma keepsD:
  assumes "keeps n m Q" and "n \<le> length h"
  shows "length h \<le> length (snd (m h))" and "take n (snd (m h)) = take n h"
    and "fst (m h) = Inr x \<Longrightarrow> Q x"
  using assms unfolding keeps_def by (auto split: sum.splits)

lemma keeps_pure: "(\<And>x. r = Inr x \<Longrightarrow> Q x) \<Longrightarrow> keeps n (pure_step r) Q"
  by (rule keepsI) (simp_all add: pure_step_def)

lemma keeps_new: "keeps n (new_array a) (\<lambda>addr. n \<le> addr)"
  by (rule keepsI) (simp_all add: new_array_def)

lemma keeps_get: "keeps n (get_array addr) (\<lambda>a. True)"
  by (rule keepsI) (simp_all add: get_array_def)

lemma keeps_set: "n \<le> addr \<Longrightarrow> keeps n (set_array addr a) (\<lambda>u. True)"
  by (rule keepsI) (simp_all add: set_array_def)

lemma keeps_bind:
  assumes m: "keeps n m Q" and f: "\<And>x. Q x \<Longrightarrow> keeps n (f x) R"
  shows "keeps n (sbind m f) R"
proof -
  have "length h \<le> length (snd (sbind m f h)) \<and> take n (snd (sbind m f h)) = take n h
        \<and> (\<forall>y. fst (sbind m f h) = Inr y \<longrightarrow> R y)"
    if h: "n \<le> length h" for h :: store
  proof (cases "m h")
    case (Pair r h')
    note a = keepsD[OF m h]
    show ?thesis
    proof (cases r)
      case (Inl e)
      then show ?thesis using Pair a(1,2) by (simp add: sbind_def)
    next
      case (Inr x)
      then have "Q x" using a(3)[of x] Pair by simp
      then have k: "keeps n (f x) R" by (rule f)
      have h': "n \<le> length h'" using a(1) h Pair by simp
      show ?thesis
        using keepsD[OF k h'] a(1,2) Pair Inr by (simp add: sbind_def)
    qed
  qed
  then show ?thesis by (intro keepsI) blast+
qed

lemma keeps_read:
  "keeps n (get_reals3 addr) (\<lambda>x. True)" "keeps n (get_reals2 addr) (\<lambda>x. True)"
  "keeps n (get_floats2 addr) (\<lambda>x. True)" "keeps n (get_indices2 addr) (\<lambda>x. True)"
  unfolding get_reals3_def get_reals2_def get_floats2_def get_indices2_def
  by (intro keeps_bind[OF keeps_get] keeps_pure TrueI)+

lemma keeps_frame:
  assumes "n \<le> distMat_at"
  shows "keeps n (frame_on_store g query_at kp2 shp mf dT distMat_at frame) (\<lambda>u. True)"
proof -
  obtain lc k1 where frame: "frame = (lc, k1)" by (cases frame)
  show ?thesis
    unfolding frame_on_store_def frame prod.case
    by (intro keeps_bind[OF keeps_read(1)] keeps_bind[OF keeps_read(2)]
        keeps_bind[OF keeps_read(3)] keeps_bind[OF keeps_new]
        keeps_bind[OF keeps_pure[where Q = "\<lambda>x. True"]] keeps_set[OF assms] TrueI)
       (auto intro!: keeps_bind[OF keeps_read(3)] keeps_set[OF assms])
qed

lemma keeps_frames:
  assumes "n \<le> distMat_at"
  shows "keeps n (frames_on_store g query_at kp2 shp mf dT distMat_at frames) (\<lambda>u. True)"
proof (induction frames)
  case Nil
  show ?case by (simp add: keeps_pure)
next
  case (Cons frame frames)
  show ?case
    unfolding frames_on_store.simps
    by (rule keeps_bind[OF keeps_frame[OF assms]]) (rule Cons.IH)
qed

lemma keeps_candidate:
  "keeps n (candidate_on_store g query_at kp2 shp mf numRef seqLen dT rIdx) (\<lambda>x. True)"
  unfolding candidate_on_store_def
  by (intro keeps_bind[OF keeps_read(2)] keeps_bind[OF keeps_new]
      keeps_bind[OF keeps_frames] keeps_bind[OF keeps_read(3)]
      keeps_bind[OF keeps_pure[where Q = "\<lambda>x. True"]] keeps_pure TrueI)

lemma keeps_candidates:
  assumes "\<And>rIdx. keeps n (score rIdx) (\<lambda>x. True)"
  shows "keeps n (candidates_on_store score cands) (\<lambda>x. True)"
proof (induction cands)
  case Nil
  show ?case by (simp add: keeps_pure)
next
  case (Cons r rest)
  show ?case
    unfolding candidates_on_store.simps
    by (intro keeps_bind[OF assms] keeps_bind[OF Cons.IH] keeps_pure TrueI)
qed

lemma keeps_matchData:
  "keeps n (matchData_on_store g query_at cands shp mf numRef C seqLen dT) (\<lambda>x. True)"
  unfolding matchData_on_store_def
  by (intro keeps_bind[OF keeps_read(2)] keeps_bind[OF keeps_pure[where Q = "\<lambda>x. True"]]
      keeps_candidates keeps_candidate TrueI)

lemma keeps_processQueryIndex:
  "keeps n (processQueryIndex_on_store g nb qIdx) (\<lambda>x. True)"
  unfolding processQueryIndex_on_store_def
  by (intro keeps_bind[OF keeps_read(4)] keeps_bind[OF keeps_pure[where Q = "\<lambda>x. True"]]
      keeps_bind[OF keeps_new] keeps_matchData TrueI)

text \<open>
  The run on the store returns what \<open>processQueryIndex\<close> and \<open>matchData\<close> return on the
  values, when the addresses of the global arrays hold these arrays.
\<close>

lemma get_run:
  "addr < length h \<Longrightarrow> h ! addr = Reals3 x \<Longrightarrow> get_reals3 addr h = (Inr x, h)"
  "addr < length h \<Longrightarrow> h ! addr = Reals2 y \<Longrightarrow> get_reals2 addr h = (Inr y, h)"
  "addr < length h \<Longrightarrow> h ! addr = Floats2 z \<Longrightarrow> get_floats2 addr h = (Inr z, h)"
  "addr < length h \<Longrightarrow> h ! addr = Indices2 w \<Longrightarrow> get_indices2 addr h = (Inr w, h)"
  by (simp_all add: get_reals3_def get_reals2_def get_floats2_def get_indices2_def
      sbind_def get_array_def pure_step_def)

lemma holds_append: "holds h addr a \<Longrightarrow> holds (h @ [b]) addr a"
  by (simp add: holds_def nth_append)

lemma holds_update: "holds h addr a \<Longrightarrow> addr \<noteq> addr' \<Longrightarrow> holds (h[addr' := b]) addr a"
  by (simp add: holds_def)

lemma holds_new: "holds (h @ [a]) (length h) a"
  by (simp add: holds_def)

lemma frame_run:
  assumes d: "holds h (denseFtRefAll_at g) (Reals3 (denseFtRefAll rd))"
    and p: "holds h (depImgRefAll_at g) (Reals3 (depImgRefAll rd))"
    and q: "holds h query_at (Reals2 query)"
    and t: "holds h distMat_at (Floats2 M)"
  shows "\<exists>h'. frame_on_store g query_at kp2 shp mf dT distMat_at (lc, k1) h
                = (ebind (frameDists rd query kp2 shp mf dT k1) (\<lambda>x. Inr ()), h')
           \<and> holds h' (denseFtRefAll_at g) (Reals3 (denseFtRefAll rd))
           \<and> holds h' (depImgRefAll_at g) (Reals3 (depImgRefAll rd))
           \<and> holds h' query_at (Reals2 query)
           \<and> (\<forall>inds dists. frameDists rd query kp2 shp mf dT k1 = Inr (inds, dists)
                 \<longrightarrow> holds h' distMat_at (Floats2 (assign_column M inds lc dists)))"
proof (cases "np_get (denseFtRefAll rd) k1")
  case (Inl e)
  then have f: "frameDists rd query kp2 shp mf dT k1 = Inl e" by (simp add: frameDists_def)
  have "frame_on_store g query_at kp2 shp mf dT distMat_at (lc, k1) h = (Inl e, h)"
    using d Inl by (simp add: frame_on_store_def holds_def get_run sbind_def pure_step_def)
  then show ?thesis using f d p q by auto
next
  case (Inr frame)
  let ?h1 = "h @ [Reals2 frame]"
  have d1: "holds ?h1 (denseFtRefAll_at g) (Reals3 (denseFtRefAll rd))"
    and p1: "holds ?h1 (depImgRefAll_at g) (Reals3 (depImgRefAll rd))"
    and q1: "holds ?h1 query_at (Reals2 query)"
    and t1: "holds ?h1 distMat_at (Floats2 M)"
    using d p q t by (simp_all add: holds_append)
  have rd: "\<lparr>denseFtRefAll = denseFtRefAll rd, depImgRefAll = depImgRefAll rd\<rparr> = rd" by simp
  have start: "frame_on_store g query_at kp2 shp mf dT distMat_at (lc, k1) h
     = sbind (pure_step (frameDists rd query kp2 shp mf dT k1))
         (\<lambda>(inRangeInds, dists).
            sbind (get_floats2 distMat_at) (\<lambda>distMat.
              set_array distMat_at (Floats2 (assign_column distMat inRangeInds lc dists)))) ?h1"
    using d Inr p1 q1
    by (simp add: frame_on_store_def holds_def get_run sbind_def pure_step_def new_array_def rd)
  show ?thesis
  proof (cases "frameDists rd query kp2 shp mf dT k1")
    case (Inl e)
    then have "frame_on_store g query_at kp2 shp mf dT distMat_at (lc, k1) h = (Inl e, ?h1)"
      unfolding start by (simp add: sbind_def pure_step_def)
    then show ?thesis using Inl d1 p1 q1 by auto
  next
    case (Inr res)
    obtain inds dists where res: "res = (inds, dists)" by (cases res)
    let ?h2 = "?h1[distMat_at := Floats2 (assign_column M inds lc dists)]"
    have run: "frame_on_store g query_at kp2 shp mf dT distMat_at (lc, k1) h = (Inr (), ?h2)"
      unfolding start using Inr res t1
      by (simp add: sbind_def pure_step_def holds_def get_run set_array_def)
    have neq: "denseFtRefAll_at g \<noteq> distMat_at" "depImgRefAll_at g \<noteq> distMat_at"
      "query_at \<noteq> distMat_at"
      using d p q t by (auto simp: holds_def)
    have "holds ?h2 (denseFtRefAll_at g) (Reals3 (denseFtRefAll rd))"
      "holds ?h2 (depImgRefAll_at g) (Reals3 (depImgRefAll rd))"
      "holds ?h2 query_at (Reals2 query)"
      "holds ?h2 distMat_at (Floats2 (assign_column M inds lc dists))"
      using d1 p1 q1 t1 neq by (simp_all add: holds_update) (simp add: holds_def)
    then show ?thesis using run Inr res by auto
  qed
qed

lemma frames_run:
  assumes d: "holds h (denseFtRefAll_at g) (Reals3 (denseFtRefAll rd))"
    and p: "holds h (depImgRefAll_at g) (Reals3 (depImgRefAll rd))"
    and q: "holds h query_at (Reals2 query)"
    and t: "holds h distMat_at (Floats2 M)"
  shows "\<exists>h'. frames_on_store g query_at kp2 shp mf dT distMat_at frames h
                = (ebind (fill_distMat rd query kp2 shp mf dT frames M) (\<lambda>x. Inr ()), h')
           \<and> holds h' (denseFtRefAll_at g) (Reals3 (denseFtRefAll rd))
           \<and> holds h' (depImgRefAll_at g) (Reals3 (depImgRefAll rd))
           \<and> holds h' query_at (Reals2 query)
           \<and> (\<forall>M'. fill_distMat rd query kp2 shp mf dT frames M = Inr M'
                 \<longrightarrow> holds h' distMat_at (Floats2 M'))"
  using d p q t
proof (induction frames arbitrary: h M)
  case Nil
  then show ?case by (simp add: pure_step_def)
next
  case (Cons frame frames)
  obtain lc k1 where frame: "frame = (lc, k1)" by (cases frame)
  from frame_run[OF Cons.prems, of kp2 shp mf dT lc k1] obtain h1 where
    run1: "frame_on_store g query_at kp2 shp mf dT distMat_at (lc, k1) h
             = (ebind (frameDists rd query kp2 shp mf dT k1) (\<lambda>x. Inr ()), h1)"
    and d1: "holds h1 (denseFtRefAll_at g) (Reals3 (denseFtRefAll rd))"
    and p1: "holds h1 (depImgRefAll_at g) (Reals3 (depImgRefAll rd))"
    and q1: "holds h1 query_at (Reals2 query)"
    and t1: "\<forall>inds dists. frameDists rd query kp2 shp mf dT k1 = Inr (inds, dists)
                 \<longrightarrow> holds h1 distMat_at (Floats2 (assign_column M inds lc dists))"
    by blast
  show ?case
  proof (cases "frameDists rd query kp2 shp mf dT k1")
    case (Inl e)
    then show ?thesis using run1 d1 p1 q1
      by (auto simp: frame sbind_def intro!: exI[of _ h1])
  next
    case (Inr res)
    obtain inds dists where res: "res = (inds, dists)" by (cases res)
    have t2: "holds h1 distMat_at (Floats2 (assign_column M inds lc dists))"
      using t1 Inr res by simp
    from Cons.IH[OF d1 p1 q1 t2] obtain h2 where
      run2: "frames_on_store g query_at kp2 shp mf dT distMat_at frames h1
               = (ebind (fill_distMat rd query kp2 shp mf dT frames
                           (assign_column M inds lc dists)) (\<lambda>x. Inr ()), h2)"
      and rest: "holds h2 (denseFtRefAll_at g) (Reals3 (denseFtRefAll rd))"
        "holds h2 (depImgRefAll_at g) (Reals3 (depImgRefAll rd))"
        "holds h2 query_at (Reals2 query)"
        "\<forall>M'. fill_distMat rd query kp2 shp mf dT frames (assign_column M inds lc dists) = Inr M'
                 \<longrightarrow> holds h2 distMat_at (Floats2 M')"
      by blast
    have "frames_on_store g query_at kp2 shp mf dT distMat_at (frame # frames) h
            = (ebind (fill_distMat rd query kp2 shp mf dT (frame # frames) M) (\<lambda>x. Inr ()), h2)"
      using run1 run2 Inr res by (simp add: frame sbind_def)
    then show ?thesis using rest Inr res by (auto simp: frame intro!: exI[of _ h2])
  qed
qed

lemma candidate_run:
  assumes d: "holds h (denseFtRefAll_at g) (Reals3 (denseFtRefAll rd))"
    and p: "holds h (depImgRefAll_at g) (Reals3 (depImgRefAll rd))"
    and q: "holds h query_at (Reals2 query)"
  shows "\<exists>h'. candidate_on_store g query_at kp2 shp mf numRef seqLen dT rIdx h
                = (candidateScore rd query kp2 shp mf numRef seqLen dT rIdx, h')
           \<and> holds h' (denseFtRefAll_at g) (Reals3 (denseFtRefAll rd))
           \<and> holds h' (depImgRefAll_at g) (Reals3 (depImgRefAll rd))
           \<and> holds h' query_at (Reals2 query)"
proof -
  let ?W = "getRefSeqInfo rIdx numRef seqLen"
  let ?M0 = "replicate (length (hd query)) (replicate (length ?W) (Num 100))"
  let ?h0 = "h @ [Floats2 ?M0]"
  have d0: "holds ?h0 (denseFtRefAll_at g) (Reals3 (denseFtRefAll rd))"
    and p0: "holds ?h0 (depImgRefAll_at g) (Reals3 (depImgRefAll rd))"
    and q0: "holds ?h0 query_at (Reals2 query)"
    and t0: "holds ?h0 (length h) (Floats2 ?M0)"
    using d p q by (simp_all add: holds_append holds_new)
  from frames_run[OF d0 p0 q0 t0, of kp2 shp mf dT "enumerate 0 ?W"] obtain h1 where
    run: "frames_on_store g query_at kp2 shp mf dT (length h) (enumerate 0 ?W) ?h0
            = (ebind (fill_distMat rd query kp2 shp mf dT (enumerate 0 ?W) ?M0) (\<lambda>x. Inr ()), h1)"
    and rest: "holds h1 (denseFtRefAll_at g) (Reals3 (denseFtRefAll rd))"
      "holds h1 (depImgRefAll_at g) (Reals3 (depImgRefAll rd))"
      "holds h1 query_at (Reals2 query)"
    and tab: "\<forall>M'. fill_distMat rd query kp2 shp mf dT (enumerate 0 ?W) ?M0 = Inr M'
                 \<longrightarrow> holds h1 (length h) (Floats2 M')"
    by blast
  have start: "candidate_on_store g query_at kp2 shp mf numRef seqLen dT rIdx h
     = sbind (frames_on_store g query_at kp2 shp mf dT (length h) (enumerate 0 ?W)) (\<lambda>u.
       sbind (get_floats2 (length h)) (\<lambda>distMat.
       sbind (pure_step (min_axis1 (length ?W) distMat)) (\<lambda>minDists.
         pure_step (Inr (np_mean (map (\<lambda>c. minDists ! c)
           (filter (\<lambda>c. minDists ! c \<noteq> Num 100) [0..<length minDists]))))))) ?h0"
    using q by (simp add: candidate_on_store_def holds_def get_run sbind_def new_array_def)
  show ?thesis
  proof (cases "fill_distMat rd query kp2 shp mf dT (enumerate 0 ?W) ?M0")
    case (Inl e)
    then have "candidate_on_store g query_at kp2 shp mf numRef seqLen dT rIdx h = (Inl e, h1)"
      unfolding start using run by (simp add: sbind_def)
    moreover have "candidateScore rd query kp2 shp mf numRef seqLen dT rIdx = Inl e"
      using Inl by (simp add: candidateScore_def candidateMinDists_def Let_def)
    ultimately show ?thesis using rest by auto
  next
    case (Inr M')
    then have t1: "holds h1 (length h) (Floats2 M')" using tab by simp
    have "candidate_on_store g query_at kp2 shp mf numRef seqLen dT rIdx h
            = (candidateScore rd query kp2 shp mf numRef seqLen dT rIdx, h1)"
      unfolding start using run Inr t1
      by (cases "min_axis1 (length ?W) M'")
         (simp_all add: sbind_def holds_def get_run pure_step_def candidateScore_def
            candidateMinDists_def Let_def)
    then show ?thesis using rest by auto
  qed
qed

lemma candidates_run:
  assumes d: "holds h (denseFtRefAll_at g) (Reals3 (denseFtRefAll rd))"
    and p: "holds h (depImgRefAll_at g) (Reals3 (depImgRefAll rd))"
    and q: "holds h query_at (Reals2 query)"
  shows "fst (candidates_on_store
                (candidate_on_store g query_at kp2 shp mf numRef seqLen dT) cands h)
           = traverse (candidateScore rd query kp2 shp mf numRef seqLen dT) cands"
  using d p q
proof (induction cands arbitrary: h)
  case Nil
  then show ?case by (simp add: pure_step_def)
next
  case (Cons r cands)
  from candidate_run[OF Cons.prems, of kp2 shp mf numRef seqLen dT r] obtain h1 where
    run: "candidate_on_store g query_at kp2 shp mf numRef seqLen dT r h
            = (candidateScore rd query kp2 shp mf numRef seqLen dT r, h1)"
    and rest: "holds h1 (denseFtRefAll_at g) (Reals3 (denseFtRefAll rd))"
      "holds h1 (depImgRefAll_at g) (Reals3 (depImgRefAll rd))"
      "holds h1 query_at (Reals2 query)"
    by blast
  show ?case
  proof (cases "candidateScore rd query kp2 shp mf numRef seqLen dT r")
    case (Inl e)
    then show ?thesis using run by (simp add: sbind_def)
  next
    case (Inr score)
    obtain res h2 where c: "candidates_on_store
        (candidate_on_store g query_at kp2 shp mf numRef seqLen dT) cands h1 = (res, h2)"
      by (cases "candidates_on_store
        (candidate_on_store g query_at kp2 shp mf numRef seqLen dT) cands h1")
    have r: "traverse (candidateScore rd query kp2 shp mf numRef seqLen dT) cands = res"
      using Cons.IH[OF rest] c by simp
    have "fst (candidates_on_store
                 (candidate_on_store g query_at kp2 shp mf numRef seqLen dT) (r # cands) h)
            = (case res of Inl e \<Rightarrow> Inl e | Inr ys \<Rightarrow> Inr (score # ys))"
      using run Inr c by (cases res) (simp_all add: sbind_def pure_step_def)
    then show ?thesis using Inr by (simp add: r)
  qed
qed

lemma matchData_run:
  assumes d: "holds h (denseFtRefAll_at g) (Reals3 (denseFtRefAll rd))"
    and p: "holds h (depImgRefAll_at g) (Reals3 (depImgRefAll rd))"
    and q: "holds h query_at (Reals2 query)"
  shows "fst (matchData_on_store g query_at cands shp mf numRef C seqLen dT h)
           = matchData rd query cands shp mf numRef C seqLen dT"
proof (cases "argmax_axis0 query")
  case (Inl e)
  then show ?thesis using q
    by (simp add: matchData_on_store_def matchData_def holds_def get_run sbind_def pure_step_def)
next
  case (Inr kp2)
  then show ?thesis using q candidates_run[OF d p q, of kp2 shp mf numRef seqLen dT cands]
    by (simp add: matchData_on_store_def matchData_def holds_def get_run sbind_def pure_step_def)
qed

lemma processQueryIndex_run:
  assumes d: "holds h (denseFtRefAll_at g) (Reals3 (denseFtRefAll (refs nb)))"
    and p: "holds h (depImgRefAll_at g) (Reals3 (depImgRefAll (refs nb)))"
    and t: "holds h (topMatches_at g) (Indices2 (topMatches nb))"
  shows "fst (processQueryIndex_on_store g nb qIdx h) = processQueryIndex nb qIdx"
proof (cases "np_column (topMatches nb) qIdx")
  case (Inl e)
  then show ?thesis using t
    by (simp add: processQueryIndex_on_store_def processQueryIndex_def holds_def get_run
        sbind_def pure_step_def)
next
  case cands: (Inr cands)
  show ?thesis
  proof (cases "loadC5Tensor (queryFiles nb) qIdx")
    case (Inl e)
    then show ?thesis using t cands
      by (simp add: processQueryIndex_on_store_def processQueryIndex_def holds_def get_run
          sbind_def pure_step_def)
  next
    case loaded: (Inr loaded)
    show ?thesis
    proof (cases "reshape_rows loaded (numFmaps nb)")
      case (Inl e)
      then show ?thesis using t cands loaded
        by (simp add: processQueryIndex_on_store_def processQueryIndex_def holds_def get_run
            sbind_def pure_step_def new_array_def)
    next
      case (Inr query)
      let ?h2 = "(h @ [Reals2 loaded]) @ [Reals2 query]"
      have d2: "holds ?h2 (denseFtRefAll_at g) (Reals3 (denseFtRefAll (refs nb)))"
        and p2: "holds ?h2 (depImgRefAll_at g) (Reals3 (depImgRefAll (refs nb)))"
        using holds_append[OF holds_append[OF d]] holds_append[OF holds_append[OF p]]
        by simp_all
      have q2: "holds ?h2 (Suc (length h)) (Reals2 query)"
        using holds_new[of "h @ [Reals2 loaded]" "Reals2 query"] by simp
      have "processQueryIndex_on_store g nb qIdx h
              = matchData_on_store g (Suc (length h)) (map int cands) (c5Shape nb)
                  (mulFac_dep2c5 nb) (int (numRefImgs nb)) (numFmaps nb) (seqL nb) (depT nb) ?h2"
        using t cands loaded Inr
        by (simp add: processQueryIndex_on_store_def holds_def get_run sbind_def pure_step_def
            new_array_def)
      then show ?thesis
        using matchData_run[OF d2 p2 q2] cands loaded Inr
        by (simp add: processQueryIndex_def)
    qed
  qed
qed

text \<open>
  C10. A call of \<open>processQueryIndex\<close>, and of \<open>matchData\<close>, leaves every object that is in
  the store before the call as it is: the dense reference tensors, the depth maps, the
  global descriptor arrays and the matrix of candidates are the same objects with the same
  entries after the call, whether it returns scores or raises.
\<close>

theorem reference_data_unchanged:
  "take (length h) (snd (processQueryIndex_on_store g nb qIdx h)) = h
   \<and> take (length h)
        (snd (matchData_on_store g query_at cands shp mf numRef C seqLen dT h)) = h"
  using keepsD(2)[OF keeps_processQueryIndex, of "length h" h g nb qIdx]
    keepsD(2)[OF keeps_matchData, of "length h" h g query_at cands shp mf numRef C seqLen dT]
  by simp

end
